theory Spec2Isabelle
  imports Main "HOL-Library.Word"
begin

section \<open>A shallow embedding of \<^verbatim>\<open>allocator.c\<close>\<close>

text \<open>
  The allocator keeps a singly linked list of block headers inside one arena that it
  grows and shrinks with \<^verbatim>\<open>sbrk\<close>. The model is sequential: the global mutex
  \<^verbatim>\<open>global_malloc_lock\<close> is taken at the start of every critical section and given
  back on every return, so each public function runs as one atomic step on the state.
\<close>

subsection \<open>Data\<close>

text \<open>
  \<^verbatim>\<open>size_t\<close> and pointers are 64-bit words (LP64); the null pointer is the word 0.
  \<^verbatim>\<open>unsigned is_free\<close> is a 32-bit word and is tested for being non-zero, as in C.
  The fields of \<^verbatim>\<open>struct header_t\<close> carry the prefix \<open>hd_\<close>.
\<close>

type_synonym addr = "64 word"

record header_t =
  hd_size :: addr
  hd_is_free :: "32 word"
  hd_next :: addr

text \<open>
  \<^verbatim>\<open>sizeof(struct header_t)\<close> on LP64: 8 bytes of \<^verbatim>\<open>size_t\<close>, 4 bytes of
  \<^verbatim>\<open>unsigned\<close>, 4 bytes of padding, 8 bytes of pointer.
\<close>

definition header_size :: addr where
  "header_size = 24"

text \<open>
  The state: the two globals \<^verbatim>\<open>head\<close> and \<^verbatim>\<open>tail\<close>, the memory, and the
  program break of the host. Memory is read through two typed views: \<open>hdr s a\<close> is the
  header object stored at address \<open>a\<close>, \<open>mem s a\<close> is the byte at address \<open>a\<close> of a
  usable region. \<open>brk_min\<close> and \<open>brk_max\<close> are the bounds between which the host lets
  the break move. Both views are total: a store never faults here, also at or above the
  break, where the real store needs the page to be mapped. The runs below that store at or
  above the break do so after a first allocation at the break 4096, inside the page from
  4096 to 8192 that this allocation made the host map.
\<close>

record heap =
  head :: addr
  tail :: addr
  hdr :: "addr \<Rightarrow> header_t"
  mem :: "addr \<Rightarrow> 8 word"
  brk :: addr
  brk_min :: addr
  brk_max :: addr

text \<open>
  The three reasons for which the C functions return \<^verbatim>\<open>NULL\<close>. The C code returns the
  same null pointer on each of them; the tag records which \<^verbatim>\<open>return NULL\<close> was taken.
  \<open>ptr_of\<close> is the pointer the C caller sees.
\<close>

datatype error = InvalidSize | Overflow | OutOfMemory

definition ptr_of :: "error + addr \<Rightarrow> addr" where
  "ptr_of r = (case r of Inl e \<Rightarrow> 0 | Inr p \<Rightarrow> p)"

subsection \<open>The host: \<^verbatim>\<open>sbrk\<close>, \<^verbatim>\<open>memset\<close>, \<^verbatim>\<open>memcpy\<close>\<close>

text \<open>
  Modelled from the spec: the arena growth interface, which the code reaches through
  \<^verbatim>\<open>sbrk\<close> of the C library and which is not part of the repository.
  \<^verbatim>\<open>sbrk(increment)\<close> takes a signed \<^verbatim>\<open>intptr_t\<close>, so the \<^verbatim>\<open>size_t\<close> argument
  of the code is read as a two's complement number; it moves the break by it and returns
  the break as it was before; when the new break would leave the bounds of the host it
  changes nothing and returns \<^verbatim>\<open>(void*) -1\<close>. \<^verbatim>\<open>sbrk(0)\<close> reads the break.
\<close>

definition sbrk :: "addr \<Rightarrow> heap \<Rightarrow> addr \<times> heap" where
  "sbrk increment s =
     (let n = uint (brk s) + sint increment in
      if uint (brk_min s) \<le> n \<and> n \<le> uint (brk_max s)
      then (brk s, s\<lparr>brk := brk s + increment\<rparr>)
      else (- 1, s))"

text \<open>
  \<^verbatim>\<open>memset(block, c, n)\<close> and \<^verbatim>\<open>memcpy(dst, src, n)\<close> of the C library, on the
  bytes of the usable regions: the address \<open>a\<close> is written when its offset from the
  destination is below \<open>n\<close>.
\<close>

definition memset :: "addr \<Rightarrow> 8 word \<Rightarrow> addr \<Rightarrow> heap \<Rightarrow> heap" where
  "memset block c n s = s\<lparr>mem := (\<lambda>a. if a - block < n then c else mem s a)\<rparr>"

definition memcpy :: "addr \<Rightarrow> addr \<Rightarrow> addr \<Rightarrow> heap \<Rightarrow> heap" where
  "memcpy dst src n s =
     s\<lparr>mem := (\<lambda>a. if a - dst < n then mem s (src + (a - dst)) else mem s a)\<rparr>"

subsection \<open>\<^verbatim>\<open>get_free_block\<close>\<close>

text \<open>
  The \<^verbatim>\<open>while (curr)\<close> loop follows \<^verbatim>\<open>next\<close> pointers and need not end on a
  cyclic list: the result \<open>None\<close> is a loop that never returns. \<open>Some 0\<close> is the C
  function returning \<^verbatim>\<open>NULL\<close>. The loop variable \<^verbatim>\<open>curr\<close> is \<open>cur\<close> here.
\<close>

partial_function (option) get_free_block_loop :: "addr \<Rightarrow> addr \<Rightarrow> heap \<Rightarrow> addr option" where
  "get_free_block_loop required_size cur s =
     (if cur \<noteq> 0 then
        (if hd_is_free (hdr s cur) \<noteq> 0 \<and> required_size \<le> hd_size (hdr s cur)
         then Some cur
         else get_free_block_loop required_size (hd_next (hdr s cur)) s)
      else Some 0)"

declare get_free_block_loop.simps [code]

definition get_free_block :: "addr \<Rightarrow> heap \<Rightarrow> addr option" where
  "get_free_block required_size s = get_free_block_loop required_size (head s) s"

subsection \<open>\<^verbatim>\<open>mmalloc\<close>\<close>

text \<open>
  \<open>new_block\<close> is the tail of \<^verbatim>\<open>mmalloc\<close> after a successful \<^verbatim>\<open>sbrk\<close>: the three
  field writes to the header at \<open>block\<close>, then \<^verbatim>\<open>if (!head) head = header\<close>,
  \<^verbatim>\<open>if (tail) tail->next = header\<close> and \<^verbatim>\<open>tail = header\<close>, in the order of the code.
\<close>

definition new_block :: "addr \<Rightarrow> addr \<Rightarrow> heap \<Rightarrow> heap" where
  "new_block header sz s =
     (let h1 = (hdr s)(header := \<lparr>hd_size = sz, hd_is_free = 0, hd_next = 0\<rparr>);
          head1 = (if head s = 0 then header else head s);
          h2 = (if tail s \<noteq> 0 then h1(tail s := (h1 (tail s))\<lparr>hd_next := header\<rparr>) else h1)
      in s\<lparr>head := head1, tail := header, hdr := h2\<rparr>)"

definition mmalloc :: "addr \<Rightarrow> heap \<Rightarrow> ((error + addr) \<times> heap) option" where
  "mmalloc sz s =
     (if sz = 0 then Some (Inl InvalidSize, s)
      else
        (case get_free_block sz s of
           None \<Rightarrow> None
         | Some header \<Rightarrow>
             if header \<noteq> 0
             then Some (Inr (header + header_size),
                        s\<lparr>hdr := (hdr s)(header := (hdr s header)\<lparr>hd_is_free := 0\<rparr>)\<rparr>)
             else
               (let total_size = header_size + sz;
                    (block, s1) = sbrk total_size s
                in if block = - 1 then Some (Inl OutOfMemory, s1)
                   else Some (Inr (block + header_size), new_block block sz s1))))"

subsection \<open>\<^verbatim>\<open>ffree\<close>\<close>

text \<open>
  The loop of \<^verbatim>\<open>ffree\<close> that looks for the node before \<^verbatim>\<open>tail\<close>: the body
  updates the node when its successor is \<^verbatim>\<open>tail\<close>, then moves to \<^verbatim>\<open>curr->next\<close>
  as it is after the update.
\<close>

partial_function (option) ffree_loop :: "addr \<Rightarrow> heap \<Rightarrow> heap option" where
  "ffree_loop cur s =
     (if cur \<noteq> 0 then
        (let s1 = (if hd_next (hdr s cur) = tail s
                   then s\<lparr>hdr := (hdr s)(cur := (hdr s cur)\<lparr>hd_next := 0\<rparr>), tail := cur\<rparr>
                   else s)
         in ffree_loop (hd_next (hdr s1 cur)) s1)
      else Some s)"

declare ffree_loop.simps [code]

definition ffree :: "addr \<Rightarrow> heap \<Rightarrow> heap option" where
  "ffree block s =
     (if block = 0 then Some s
      else
        (let header = block - header_size;
             programbreak = fst (sbrk 0 s)
         in if block + hd_size (hdr s header) = programbreak
            then
              (case (if head s = tail s then Some (s\<lparr>head := 0, tail := 0\<rparr>)
                     else ffree_loop (head s) s) of
                 None \<Rightarrow> None
               | Some s1 \<Rightarrow> Some (snd (sbrk (0 - header_size - hd_size (hdr s1 header)) s1)))
            else Some (s\<lparr>hdr := (hdr s)(header := (hdr s header)\<lparr>hd_is_free := 1\<rparr>)\<rparr>)))"

subsection \<open>\<^verbatim>\<open>ccalloc\<close> and \<^verbatim>\<open>rrealloc\<close>\<close>

text \<open>
  Both test the pointer that \<^verbatim>\<open>mmalloc\<close> returned: \<^verbatim>\<open>if (!block)\<close> and
  \<^verbatim>\<open>if (ret)\<close> are tests of \<open>ptr_of r\<close>, and both hand the result of \<^verbatim>\<open>mmalloc\<close>
  on. The division of \<^verbatim>\<open>ccalloc\<close> is only reached with a non-zero divisor.
\<close>

definition ccalloc :: "addr \<Rightarrow> addr \<Rightarrow> heap \<Rightarrow> ((error + addr) \<times> heap) option" where
  "ccalloc num nsize s =
     (if num = 0 \<or> nsize = 0 then Some (Inl InvalidSize, s)
      else
        (let sz = num * nsize
         in if nsize \<noteq> sz div num then Some (Inl Overflow, s)
            else
              (case mmalloc sz s of
                 None \<Rightarrow> None
               | Some (r, s1) \<Rightarrow>
                   if ptr_of r = 0 then Some (r, s1)
                   else Some (r, memset (ptr_of r) 0 sz s1))))"

definition rrealloc :: "addr \<Rightarrow> addr \<Rightarrow> heap \<Rightarrow> ((error + addr) \<times> heap) option" where
  "rrealloc block sz s =
     (if block = 0 \<or> sz = 0 then mmalloc sz s
      else
        (let header = block - header_size
         in if sz \<le> hd_size (hdr s header) then Some (Inr block, s)
            else
              (case mmalloc sz s of
                 None \<Rightarrow> None
               | Some (r, s1) \<Rightarrow>
                   if ptr_of r \<noteq> 0
                   then map_option (Pair r)
                          (ffree block (memcpy (ptr_of r) block (hd_size (hdr s1 header)) s1))
                   else Some (r, s1))))"

subsection \<open>The state at program start\<close>

text \<open>
  The globals of a C program start zeroed: \<^verbatim>\<open>head\<close> and \<^verbatim>\<open>tail\<close> are null. The
  break starts at \<open>b\<close> and the host lets it grow up to \<open>lim\<close>.
\<close>

definition init :: "addr \<Rightarrow> addr \<Rightarrow> heap" where
  "init b lim =
     \<lparr>head = 0, tail = 0,
      hdr = (\<lambda>a. \<lparr>hd_size = 0, hd_is_free = 0, hd_next = 0\<rparr>),
      mem = (\<lambda>a. 0),
      brk = b, brk_min = b, brk_max = lim\<rparr>"

section \<open>The block list as a list of addresses\<close>

text \<open>
  \<open>chain h p bs\<close>: following \<^verbatim>\<open>next\<close> from the pointer \<open>p\<close> visits exactly the headers
  \<open>bs\<close>, none of them null, and then reaches the null pointer.
\<close>

fun chain :: "(addr \<Rightarrow> header_t) \<Rightarrow> addr \<Rightarrow> addr list \<Rightarrow> bool" where
  "chain h p [] = (p = 0)"
| "chain h p (b # bs) = (p = b \<and> b \<noteq> 0 \<and> chain h (hd_next (h b)) bs)"

text \<open>The test of \<^verbatim>\<open>get_free_block\<close>: the block is free and large enough.\<close>

definition fits :: "heap \<Rightarrow> addr \<Rightarrow> addr \<Rightarrow> bool" where
  "fits s required_size b = (hd_is_free (hdr s b) \<noteq> 0 \<and> required_size \<le> hd_size (hdr s b))"

text \<open>
  \<open>packed h a bs e\<close>: the blocks \<open>bs\<close> lie one after the other from address \<open>a\<close> to
  address \<open>e\<close>, each a header followed by its usable region of \<open>hd_size\<close> bytes, and
  no block is empty. Addresses are natural numbers here, so nothing wraps around.
\<close>

fun packed :: "(addr \<Rightarrow> header_t) \<Rightarrow> nat \<Rightarrow> addr list \<Rightarrow> nat \<Rightarrow> bool" where
  "packed h a [] e = (a = e)"
| "packed h a (b # bs) e =
     (unat b = a \<and> hd_size (h b) \<noteq> 0 \<and>
      packed h (a + unat header_size + unat (hd_size (h b))) bs e)"

text \<open>
  A well-formed state with block list \<open>bs\<close>: \<^verbatim>\<open>head\<close> starts the list, \<^verbatim>\<open>tail\<close> is
  its last node, the blocks fill the arena from its start to the break, the arena does not
  start at the null address, and the host keeps the break below \<open>2 ^ 63\<close>.
\<close>

definition wf_heap :: "heap \<Rightarrow> addr list \<Rightarrow> bool" where
  "wf_heap s bs =
     (chain (hdr s) (head s) bs \<and>
      packed (hdr s) (unat (brk_min s)) bs (unat (brk s)) \<and>
      tail s = (if bs = [] then 0 else last bs) \<and>
      brk_min s \<noteq> 0 \<and> brk s \<le> brk_max s \<and> unat (brk_max s) < 2 ^ 63)"

subsection \<open>Concrete states\<close>

text \<open>
  \<open>heap_a\<close>: one live block of 4 bytes, and a host that has 6 bytes left to give.
  \<open>heap_abc\<close>: the blocks A (4 bytes), B (8 bytes), C (1 byte) after A was released.
  \<open>heap_wrapped\<close>: the state after \<^verbatim>\<open>mmalloc(1)\<close> and \<^verbatim>\<open>mmalloc(SIZE_MAX - 23)\<close> from
  program start with the break at 4096. \<open>heap_cyclic\<close>: that state after one more
  \<^verbatim>\<open>mmalloc(1)\<close>.
\<close>

definition heap_a :: heap where
  "heap_a =
     \<lparr>head = 4096, tail = 4096,
      hdr = (\<lambda>a. \<lparr>hd_size = 0, hd_is_free = 0, hd_next = 0\<rparr>)
              (4096 := \<lparr>hd_size = 4, hd_is_free = 0, hd_next = 0\<rparr>),
      mem = (\<lambda>a. 0), brk = 4124, brk_min = 4096, brk_max = 4130\<rparr>"

definition heap_abc :: heap where
  "heap_abc =
     \<lparr>head = 4096, tail = 4156,
      hdr = (\<lambda>a. \<lparr>hd_size = 0, hd_is_free = 0, hd_next = 0\<rparr>)
              (4096 := \<lparr>hd_size = 4, hd_is_free = 1, hd_next = 4124\<rparr>,
               4124 := \<lparr>hd_size = 8, hd_is_free = 0, hd_next = 4156\<rparr>,
               4156 := \<lparr>hd_size = 1, hd_is_free = 0, hd_next = 0\<rparr>),
      mem = (\<lambda>a. 0), brk = 4181, brk_min = 4096, brk_max = 8192\<rparr>"

definition heap_wrapped :: heap where
  "heap_wrapped =
     \<lparr>head = 4096, tail = 4121,
      hdr = (\<lambda>a. \<lparr>hd_size = 0, hd_is_free = 0, hd_next = 0\<rparr>)
              (4096 := \<lparr>hd_size = 1, hd_is_free = 0, hd_next = 4121\<rparr>,
               4121 := \<lparr>hd_size = 18446744073709551592, hd_is_free = 0, hd_next = 0\<rparr>),
      mem = (\<lambda>a. 0), brk = 4121, brk_min = 4096, brk_max = 8192\<rparr>"

definition heap_cyclic :: heap where
  "heap_cyclic =
     \<lparr>head = 4096, tail = 4121,
      hdr = (\<lambda>a. \<lparr>hd_size = 0, hd_is_free = 0, hd_next = 0\<rparr>)
              (4096 := \<lparr>hd_size = 1, hd_is_free = 0, hd_next = 4121\<rparr>,
               4121 := \<lparr>hd_size = 1, hd_is_free = 0, hd_next = 4121\<rparr>),
      mem = (\<lambda>a. 0), brk = 4146, brk_min = 4096, brk_max = 8192\<rparr>"

section \<open>Lemmas\<close>

subsection \<open>Word arithmetic\<close>

text \<open>
  Facts about 64-bit words that the proofs below use: when sums do not wrap, how a small
  word reads as a signed number, and the round trip of multiplication and division.
\<close>

lemma unat_header_size: "unat header_size = 24"
  by (simp add: header_size_def)

lemma uint_lt_of_unat: "unat (w::addr) < n \<Longrightarrow> uint w < int n"
  by (metis of_nat_less_iff uint_nat)

lemma stb63_pos: "0 \<le> k \<Longrightarrow> k < 2 ^ 63 \<Longrightarrow> signed_take_bit 63 k = (k::int)"
  by (simp add: signed_take_bit_int_eq_self_iff)

lemma stb63_neg: "0 \<le> k \<Longrightarrow> k < 2 ^ 63 \<Longrightarrow> signed_take_bit 63 (- k) = - (k::int)"
  by (simp add: signed_take_bit_int_eq_self_iff)

lemma sint_small: 
  assumes "unat (w::addr) < 2 ^ 63" shows "sint w = uint w"
proof -
  have "uint w < 2 ^ 63" using uint_lt_of_unat [OF assms] by simp
  then have "signed_take_bit 63 (uint w) = uint w"
    by (intro stb63_pos) simp_all
  then show ?thesis by (simp add: sint_uint)
qed

lemma sint_neg_small:
  assumes "unat (w::addr) < 2 ^ 63" shows "sint (- w) = - uint w"
proof -
  have u: "uint w < 2 ^ 63" using uint_lt_of_unat [OF assms] by simp
  have "- w = word_of_int (- uint w)" by simp
  then have "sint (- w) = signed_take_bit 63 (- uint w)"
    by (simp only: sint_sbintrunc') simp
  also have "\<dots> = - uint w"
    using u by (intro stb63_neg) simp_all
  finally show ?thesis .
qed

lemma unat_add_small:
  "unat (x::addr) + unat y < 2 ^ 64 \<Longrightarrow> unat (x + y) = unat x + unat y"
  using unat_add_lem [of x y] by simp

lemma uint_add_le: "(uint a + uint b \<le> uint c) = (unat a + unat b \<le> unat c)"
  by (simp only: uint_nat of_nat_add [symmetric] of_nat_le_iff)

lemma uint_le_sub: "unat a + unat b \<le> unat c \<Longrightarrow> uint a \<le> uint c - uint b"
  using uint_add_le [of a b c] by linarith

lemma mul_div_roundtrip:
  fixes num nsize :: addr
  assumes "num \<noteq> 0"
  shows "(nsize \<noteq> (num * nsize) div num) \<longleftrightarrow> 2 ^ 64 \<le> unat num * unat nsize"
proof -
  let ?a = "unat num" and ?b = "unat nsize"
  have a0: "0 < ?a" using assms by (simp add: unat_gt_0)
  have b64: "?b < 2 ^ 64" using unsigned_less [of nsize, where ?'a = nat] by simp
  have eq: "unat ((num * nsize) div num) = ((?a * ?b) mod 2 ^ 64) div ?a"
    by (simp add: unat_div unat_word_ariths)
  show ?thesis
  proof (cases "?a * ?b < 2 ^ 64")
    case True
    then have "unat ((num * nsize) div num) = ?b" using a0 by (simp add: eq)
    then have "(num * nsize) div num = nsize" by (simp add: word_unat_eq_iff)
    with True show ?thesis by simp
  next
    case False
    have "(?a * ?b) mod 2 ^ 64 < (2 ^ 64 :: nat)" by simp
    with False have "(?a * ?b) mod 2 ^ 64 < ?a * ?b" by linarith
    then have "((?a * ?b) mod 2 ^ 64) div ?a < ?b"
      using a0 by (simp add: less_mult_imp_div_less mult.commute)
    then have "unat ((num * nsize) div num) \<noteq> ?b" by (simp add: eq)
    then have "(num * nsize) div num \<noteq> nsize" by auto
    with False show ?thesis by auto
  qed
qed

subsection \<open>The host\<close>

text \<open>
  What \<^verbatim>\<open>sbrk\<close> returns: reading the break, lowering it, raising it.
\<close>

lemma sbrk_cases:
  "sbrk k s = (brk s, s\<lparr>brk := brk s + k\<rparr>) \<or> sbrk k s = (- 1, s)"
  by (simp add: sbrk_def Let_def)

lemma sbrk_read:
  "brk_min s \<le> brk s \<Longrightarrow> brk s \<le> brk_max s \<Longrightarrow> sbrk 0 s = (brk s, s)"
  by (simp add: sbrk_def word_le_def)

lemma sbrk_shrink:
  assumes k: "unat (k::addr) < 2 ^ 63"
    and lo: "unat (brk_min s) + unat k \<le> unat (brk s)"
    and hi: "brk s \<le> brk_max s"
  shows "sbrk (- k) s = (brk s, s\<lparr>brk := brk s - k\<rparr>)"
proof -
  have "sint (- k) = - uint k" by (rule sint_neg_small [OF k])
  moreover have "uint (brk_min s) \<le> uint (brk s) - uint k"
    by (rule uint_le_sub [OF lo])
  moreover have "uint (brk s) - uint k \<le> uint (brk_max s)"
  proof -
    have "0 \<le> uint k" by simp
    moreover have "uint (brk s) \<le> uint (brk_max s)" using hi by (simp add: word_le_def)
    ultimately show ?thesis by linarith
  qed
  ultimately show ?thesis by (simp add: sbrk_def)
qed

lemma sbrk_grow:
  assumes k: "unat (k::addr) < 2 ^ 63"
    and lo: "brk_min s \<le> brk s"
  shows "sbrk k s =
    (if unat (brk s) + unat k \<le> unat (brk_max s) then (brk s, s\<lparr>brk := brk s + k\<rparr>) else (- 1, s))"
proof -
  have "sint k = uint k" by (rule sint_small [OF k])
  moreover have "uint (brk_min s) \<le> uint (brk s) + uint k"
  proof -
    have "0 \<le> uint k" by simp
    moreover have "uint (brk_min s) \<le> uint (brk s)" using lo by (simp add: word_le_def)
    ultimately show ?thesis by linarith
  qed
  ultimately show ?thesis by (simp add: sbrk_def uint_add_le)
qed

subsection \<open>Chains of headers\<close>

text \<open>
  How a chain reacts to header updates, to the removal of its last node and to a new
  last node. A node that is its own successor starts no chain.
\<close>

lemma chain_nonzero: "chain h p bs \<Longrightarrow> b \<in> set bs \<Longrightarrow> b \<noteq> 0"
  by (induction bs arbitrary: p) auto

lemma chain_cong:
  "\<forall>b\<in>set bs. hd_next (h' b) = hd_next (h b) \<Longrightarrow> chain h' p bs = chain h p bs"
  by (induction bs arbitrary: p) auto

lemma chain_butlast:
  assumes "chain h p (cs @ [t])" "cs \<noteq> []" "distinct (cs @ [t])"
  shows "chain (h(last cs := (h (last cs))\<lparr>hd_next := 0\<rparr>)) p cs"
  using assms
proof (induction cs arbitrary: p)
  case Nil
  then show ?case by simp
next
  case (Cons c cs)
  from Cons.prems have c: "p = c" "c \<noteq> 0" and rest: "chain h (hd_next (h c)) (cs @ [t])"
    by simp_all
  show ?case
  proof (cases "cs = []")
    case True
    with c show ?thesis by simp
  next
    case False
    from Cons.prems(3) have d: "distinct (cs @ [t])" and "c \<notin> set cs" by simp_all
    with False have ne: "c \<noteq> last cs" by (metis last_in_set)
    from Cons.IH [OF rest False d]
    have ih: "chain (h(last cs := (h (last cs))\<lparr>hd_next := 0\<rparr>)) (hd_next (h c)) cs" .
    have l: "last (c # cs) = last cs" using False by simp
    have "chain (h(last cs := (h (last cs))\<lparr>hd_next := 0\<rparr>)) p (c # cs)"
      using c ne ih by simp
    then show ?thesis by (simp only: l)
  qed
qed

lemma chain_snoc:
  assumes "chain h p bs" "bs \<noteq> []" "distinct bs" "nb \<notin> set bs" "nb \<noteq> 0" "hd_next v = 0"
  shows "chain ((h(nb := v))(last bs := ((h(nb := v)) (last bs))\<lparr>hd_next := nb\<rparr>)) p (bs @ [nb])"
  using assms
proof (induction bs arbitrary: p)
  case Nil
  then show ?case by simp
next
  case (Cons c cs)
  from Cons.prems have c: "p = c" "c \<noteq> 0" "c \<noteq> nb" and rest: "chain h (hd_next (h c)) cs"
    by auto
  show ?case
  proof (cases "cs = []")
    case True
    with c rest Cons.prems show ?thesis by simp
  next
    case False
    from Cons.prems have d: "distinct cs" "nb \<notin> set cs" "c \<notin> set cs" by simp_all
    with False have ne: "c \<noteq> last cs" by (metis last_in_set)
    have l: "last (c # cs) = last cs" using False by simp
    from Cons.IH [OF rest False d(1,2) Cons.prems(5,6)]
    have ih: "chain ((h(nb := v))(last cs := ((h(nb := v)) (last cs))\<lparr>hd_next := nb\<rparr>))
                (hd_next (h c)) (cs @ [nb])" .
    have "chain ((h(nb := v))(last cs := ((h(nb := v)) (last cs))\<lparr>hd_next := nb\<rparr>))
            p ((c # cs) @ [nb])"
      using c ne ih by simp
    then show ?thesis by (simp only: l)
  qed
qed

lemma chain_last_next:
  "chain h p (cs @ [t]) \<Longrightarrow> cs \<noteq> [] \<Longrightarrow> hd_next (h (last cs)) = t"
proof (induction cs arbitrary: p)
  case Nil
  then show ?case by simp
next
  case (Cons c cs)
  then show ?case by (cases "cs = []") auto
qed

lemma chain_self_loop: "p \<noteq> 0 \<Longrightarrow> hd_next (h p) = p \<Longrightarrow> \<not> chain h p bs"
  by (induction bs) auto

subsection \<open>Blocks packed in the arena\<close>

text \<open>
  Packed blocks lie inside the arena at increasing addresses; only the last one ends at
  the end of the arena, and no two of them overlap.
\<close>

lemma packed_append:
  "packed h a (xs @ ys) e \<longleftrightarrow> (\<exists>m. packed h a xs m \<and> packed h m ys e)"
  by (induction xs arbitrary: a) auto

lemma packed_le: "packed h a bs e \<Longrightarrow> a \<le> e"
proof (induction bs arbitrary: a)
  case Nil
  then show ?case by simp
next
  case (Cons x bs)
  then have "packed h (a + unat header_size + unat (hd_size (h x))) bs e" by simp
  from Cons.IH [OF this] show ?case by simp
qed

lemma packed_bounds:
  "packed h a bs e \<Longrightarrow> b \<in> set bs \<Longrightarrow>
   a \<le> unat b \<and> unat b + unat header_size + unat (hd_size (h b)) \<le> e \<and> hd_size (h b) \<noteq> 0"
proof (induction bs arbitrary: a)
  case Nil
  then show ?case by simp
next
  case (Cons x bs)
  show ?case
  proof (cases "b = x")
    case True
    with Cons.prems show ?thesis by (auto dest: packed_le)
  next
    case False
    with Cons.prems have "b \<in> set bs"
      and "packed h (a + unat header_size + unat (hd_size (h x))) bs e" by auto
    from Cons.IH [OF this(2) this(1)] show ?thesis by auto
  qed
qed

lemma packed_notin:
  "packed h a bs e \<Longrightarrow> unat x < a \<Longrightarrow> x \<notin> set bs"
  by (auto dest: packed_bounds)

lemma packed_distinct: "packed h a bs e \<Longrightarrow> distinct bs"
proof (induction bs arbitrary: a)
  case Nil
  then show ?case by simp
next
  case (Cons x bs)
  then have p: "packed h (a + unat header_size + unat (hd_size (h x))) bs e" and "unat x = a"
    by auto
  then have "x \<notin> set bs" by (intro packed_notin [OF p]) (simp add: header_size_def)
  with Cons.IH [OF p] show ?case by simp
qed

lemma packed_last:
  "packed h a bs e \<Longrightarrow> b \<in> set bs \<Longrightarrow>
   (unat b + unat header_size + unat (hd_size (h b)) = e) = (b = last bs)"
proof (induction bs arbitrary: a)
  case Nil
  then show ?case by simp
next
  case (Cons x bs)
  then have p: "packed h (a + unat header_size + unat (hd_size (h x))) bs e"
    and x: "unat x = a" and nz: "hd_size (h x) \<noteq> 0" by auto
  show ?case
  proof (cases bs)
    case Nil
    with Cons.prems show ?thesis by auto
  next
    case (Cons y ys)
    then have "y \<in> set bs" by simp
    from packed_bounds [OF p this]
    have lt: "a + unat header_size + unat (hd_size (h x)) + unat header_size < e"
      by (simp add: header_size_def unat_gt_0 [symmetric] del: unat_gt_0)
    show ?thesis
    proof (cases "b = x")
      case True
      have "x \<notin> set bs" using packed_distinct [OF Cons.prems(1)] by simp
      then have "x \<noteq> last bs" using Cons by (metis last_in_set list.distinct(1))
      with True lt x Cons show ?thesis by auto
    next
      case False
      with Cons.prems have "b \<in> set bs" by simp
      from Cons.IH [OF p this] Cons show ?thesis by simp
    qed
  qed
qed

lemma packed_cong:
  "\<forall>b\<in>set bs. hd_size (h' b) = hd_size (h b) \<Longrightarrow> packed h' a bs e = packed h a bs e"
  by (induction bs arbitrary: a) auto

lemma packed_disjoint:
  "packed h a bs e \<Longrightarrow> x \<in> set bs \<Longrightarrow> y \<in> set bs \<Longrightarrow> x \<noteq> y \<Longrightarrow>
   unat x + unat header_size + unat (hd_size (h x)) \<le> unat y \<or>
   unat y + unat header_size + unat (hd_size (h y)) \<le> unat x"
proof (induction bs arbitrary: a)
  case Nil
  then show ?case by simp
next
  case (Cons c cs)
  then have p: "packed h (a + unat header_size + unat (hd_size (h c))) cs e" and c: "unat c = a"
    by auto
  show ?case
  proof (cases "x = c")
    case True
    with Cons.prems have "y \<in> set cs" by auto
    from packed_bounds [OF p this] True c show ?thesis by simp
  next
    case xc: False
    show ?thesis
    proof (cases "y = c")
      case True
      with Cons.prems xc have "x \<in> set cs" by auto
      from packed_bounds [OF p this] True c show ?thesis by simp
    next
      case False
      with xc Cons.prems have "x \<in> set cs" "y \<in> set cs" by auto
      from Cons.IH [OF p this Cons.prems(4)] show ?thesis .
    qed
  qed
qed

subsection \<open>Well-formed states\<close>

text \<open>
  In a well-formed state the test of \<^verbatim>\<open>ffree\<close> singles out the last block of the
  list; the state at program start and the two concrete states are well formed.
\<close>

lemma wf_brk_min: "wf_heap s bs \<Longrightarrow> brk_min s \<le> brk s"
  by (auto simp: wf_heap_def word_le_nat_alt dest: packed_le)

lemma wf_block:
  assumes "wf_heap s bs" "h \<in> set bs"
  shows "unat (brk_min s) \<le> unat h"
    and "unat h + 24 + unat (hd_size (hdr s h)) \<le> unat (brk s)"
    and "hd_size (hdr s h) \<noteq> 0"
    and "unat (brk s) < 2 ^ 63"
    and "unat (h + header_size) = unat h + 24"
    and "unat (h + header_size + hd_size (hdr s h)) = unat h + 24 + unat (hd_size (hdr s h))"
    and "unat (header_size + hd_size (hdr s h)) = 24 + unat (hd_size (hdr s h))"
proof -
  from assms have p: "packed (hdr s) (unat (brk_min s)) bs (unat (brk s))"
    and lim: "brk s \<le> brk_max s" "unat (brk_max s) < 2 ^ 63"
    by (simp_all add: wf_heap_def)
  from packed_bounds [OF p assms(2)]
  show 1: "unat (brk_min s) \<le> unat h"
    and 2: "unat h + 24 + unat (hd_size (hdr s h)) \<le> unat (brk s)"
    and "hd_size (hdr s h) \<noteq> 0"
    by (simp_all add: header_size_def)
  from lim show 3: "unat (brk s) < 2 ^ 63" by (simp add: word_le_nat_alt)
  have hs: "unat header_size = 24" by (simp add: header_size_def)
  from 2 3 show 4: "unat (h + header_size) = unat h + 24"
    by (subst unat_add_small) (simp_all add: hs)
  from 2 3 4 show "unat (h + header_size + hd_size (hdr s h)) = unat h + 24 + unat (hd_size (hdr s h))"
    by (subst unat_add_small) simp_all
  from 2 3 show "unat (header_size + hd_size (hdr s h)) = 24 + unat (hd_size (hdr s h))"
    by (subst unat_add_small) (simp_all add: hs)
qed

lemma wf_last_test:
  assumes wf: "wf_heap s bs" and h: "h \<in> set bs"
  shows "(h + header_size + hd_size (hdr s h) = brk s) = (h = last bs)"
proof -
  from wf have p: "packed (hdr s) (unat (brk_min s)) bs (unat (brk s))"
    by (simp add: wf_heap_def)
  have "(h + header_size + hd_size (hdr s h) = brk s) =
        (unat (h + header_size + hd_size (hdr s h)) = unat (brk s))"
    by (simp add: word_unat_eq_iff)
  also have "\<dots> = (unat h + unat header_size + unat (hd_size (hdr s h)) = unat (brk s))"
    using wf_block(6) [OF wf h] by (simp add: header_size_def)
  also have "\<dots> = (h = last bs)" by (rule packed_last [OF p h])
  finally show ?thesis .
qed

lemma wf_tail_ne_brk: "wf_heap s bs \<Longrightarrow> tail s \<noteq> brk s"
proof -
  assume wf: "wf_heap s bs"
  then have p: "packed (hdr s) (unat (brk_min s)) bs (unat (brk s))" and nz: "brk_min s \<noteq> 0"
    and tl: "tail s = (if bs = [] then 0 else last bs)" by (simp_all add: wf_heap_def)
  show ?thesis
  proof (cases "bs = []")
    case True
    with p have "brk_min s = brk s" by (simp add: word_unat_eq_iff)
    with True tl nz show ?thesis by auto
  next
    case False
    then have "last bs \<in> set bs" by simp
    from packed_bounds [OF p this] tl False show ?thesis by (auto simp: unat_header_size)
  qed
qed

lemma wf_sbrk_read: "wf_heap s bs \<Longrightarrow> fst (sbrk 0 s) = brk s"
  using sbrk_read [OF wf_brk_min, of s bs] by (simp add: wf_heap_def)

lemma wf_brk_ne_minus1: "wf_heap s bs \<Longrightarrow> brk s \<noteq> - 1"
proof
  assume wf: "wf_heap s bs" and "brk s = - 1"
  then have "unat (brk s) = 2 ^ 64 - 1"
    by (simp add: unsigned_minus_1_eq_mask mask_eq_exp_minus_1)
  moreover from wf have "unat (brk s) \<le> unat (brk_max s)" "unat (brk_max s) < 2 ^ 63"
    by (simp_all add: wf_heap_def word_le_nat_alt)
  ultimately show False by simp
qed

lemma wf_memset: "wf_heap (memset p c n s) bs = wf_heap s bs"
  by (simp add: wf_heap_def memset_def)

lemma wf_memcpy: "wf_heap (memcpy d p n s) bs = wf_heap s bs"
  by (simp add: wf_heap_def memcpy_def)

lemma wf_flag_update:
  assumes wf: "wf_heap s bs" and b: "b \<in> set bs"
  shows "wf_heap (s\<lparr>hdr := (hdr s)(b := (hdr s b)\<lparr>hd_is_free := x\<rparr>)\<rparr>) bs"
proof -
  have "chain ((hdr s)(b := (hdr s b)\<lparr>hd_is_free := x\<rparr>)) (head s) bs = chain (hdr s) (head s) bs"
    by (rule chain_cong) simp
  moreover have "packed ((hdr s)(b := (hdr s b)\<lparr>hd_is_free := x\<rparr>)) (unat (brk_min s)) bs (unat (brk s))
      = packed (hdr s) (unat (brk_min s)) bs (unat (brk s))"
    by (rule packed_cong) simp
  ultimately show ?thesis using wf by (simp add: wf_heap_def)
qed

lemma init_wf: "b \<noteq> 0 \<Longrightarrow> b \<le> lim \<Longrightarrow> unat lim < 2 ^ 63 \<Longrightarrow> wf_heap (init b lim) []"
  by (simp add: wf_heap_def init_def)

lemma heap_a_wf: "wf_heap heap_a [4096]"
  by (simp add: wf_heap_def heap_a_def header_size_def)

lemma heap_abc_wf: "wf_heap heap_abc [4096, 4124, 4156]"
  by (simp add: wf_heap_def heap_abc_def header_size_def)

subsection \<open>The search for a free block\<close>

text \<open>
  On a chain the search returns the first block that fits, or the null pointer when none
  does. On a node that is its own successor and does not fit, it never returns.
\<close>

lemma get_free_block_loop_none:
  "chain (hdr s) p bs \<Longrightarrow> \<forall>x\<in>set bs. \<not> fits s n x \<Longrightarrow> get_free_block_loop n p s = Some 0"
proof (induction bs arbitrary: p)
  case Nil
  then show ?case by (simp add: get_free_block_loop.simps)
next
  case (Cons b bs)
  from Cons.prems have "p = b" "b \<noteq> 0" "chain (hdr s) (hd_next (hdr s b)) bs" "\<not> fits s n b"
    by simp_all
  moreover have "get_free_block_loop n (hd_next (hdr s b)) s = Some 0"
    using Cons by simp
  ultimately show ?case
    by (subst get_free_block_loop.simps) (simp add: fits_def)
qed

lemma get_free_block_loop_first:
  "chain (hdr s) p (pre @ b # post) \<Longrightarrow> \<forall>x\<in>set pre. \<not> fits s n x \<Longrightarrow> fits s n b \<Longrightarrow>
   get_free_block_loop n p s = Some b"
proof (induction pre arbitrary: p)
  case Nil
  then show ?case by (subst get_free_block_loop.simps) (simp add: fits_def)
next
  case (Cons a pre)
  from Cons.prems have "p = a" "a \<noteq> 0" "chain (hdr s) (hd_next (hdr s a)) (pre @ b # post)" "\<not> fits s n a"
    by simp_all
  moreover have "get_free_block_loop n (hd_next (hdr s a)) s = Some b"
    using Cons by simp
  ultimately show ?case
    by (subst get_free_block_loop.simps) (auto simp: fits_def)
qed

lemma get_free_block_loop_cases:
  assumes "chain (hdr s) p bs"
  shows "(\<exists>b\<in>set bs. fits s n b \<and> get_free_block_loop n p s = Some b) \<or>
         ((\<forall>x\<in>set bs. \<not> fits s n x) \<and> get_free_block_loop n p s = Some 0)"
proof (cases "\<exists>x\<in>set bs. fits s n x")
  case True
  then obtain pre b post where "bs = pre @ b # post" "fits s n b" "\<forall>x\<in>set pre. \<not> fits s n x"
    using split_list_first_prop [of bs "fits s n"] by blast
  with assms get_free_block_loop_first [of s p pre b post n] show ?thesis by auto
next
  case False
  with assms get_free_block_loop_none [of s p bs n] show ?thesis by auto
qed

lemma get_free_block_loop_self_loop:
  assumes p: "p \<noteq> 0" "hd_next (hdr s p) = p" and nofit: "\<not> fits s n p"
  shows "get_free_block_loop n p s = None"
proof -
  have "\<not> (n' = n \<and> p' = p \<and> s' = s)" if "get_free_block_loop n' p' s' = Some y" for n' p' s' y
    using that
  proof (induction n' p' s' y rule: get_free_block_loop.raw_induct [rotated, consumes 1, case_names step])
    case (step f n' p' s' y)
    show ?case
    proof
      assume "n' = n \<and> p' = p \<and> s' = s"
      with step.hyps p nofit have "f n p s = Some y" by (auto simp: fits_def)
      from step.IH [OF this] show False by simp
    qed
  qed
  then show ?thesis by (cases "get_free_block_loop n p s") auto
qed

subsection \<open>\<^verbatim>\<open>mmalloc\<close>\<close>

text \<open>
  The two ways in which \<^verbatim>\<open>mmalloc\<close> succeeds, and what they keep. The lemmas that
  need the sum of header size and requested size not to wrap, and to be positive as an
  \<^verbatim>\<open>intptr_t\<close>, say so: \<open>unat sz + 24 < 2 ^ 63\<close>.
\<close>

lemma new_block_fields:
  "brk (new_block nb sz s) = brk s"
  "brk_min (new_block nb sz s) = brk_min s"
  "brk_max (new_block nb sz s) = brk_max s"
  "mem (new_block nb sz s) = mem s"
  "tail (new_block nb sz s) = nb"
  "head (new_block nb sz s) = (if head s = 0 then nb else head s)"
  by (simp_all add: new_block_def Let_def)

lemma new_block_old:
  "a \<noteq> nb \<Longrightarrow> hd_size (hdr (new_block nb sz s) a) = hd_size (hdr s a)"
  "a \<noteq> nb \<Longrightarrow> hd_is_free (hdr (new_block nb sz s) a) = hd_is_free (hdr s a)"
  "a \<noteq> nb \<Longrightarrow> a \<noteq> tail s \<Longrightarrow> hdr (new_block nb sz s) a = hdr s a"
  by (simp_all add: new_block_def Let_def)

lemma new_block_new:
  "tail s \<noteq> nb \<Longrightarrow> hdr (new_block nb sz s) nb = \<lparr>hd_size = sz, hd_is_free = 0, hd_next = 0\<rparr>"
  by (simp add: new_block_def Let_def)

lemma new_block_link:
  "tail s \<noteq> nb \<Longrightarrow> tail s \<noteq> 0 \<Longrightarrow>
   hdr (new_block nb sz s) (tail s) = (hdr s (tail s))\<lparr>hd_next := nb\<rparr>"
  by (simp add: new_block_def Let_def)

lemma new_block_chain:
  assumes wf: "wf_heap s bs"
  shows "chain (hdr (new_block (brk s) sz (s\<lparr>brk := e\<rparr>)))
               (head (new_block (brk s) sz (s\<lparr>brk := e\<rparr>))) (bs @ [brk s])"
proof -
  let ?nb = "brk s"
  from wf have ch: "chain (hdr s) (head s) bs"
    and p: "packed (hdr s) (unat (brk_min s)) bs (unat (brk s))"
    and tl: "tail s = (if bs = [] then 0 else last bs)" and nz: "brk_min s \<noteq> 0"
    by (simp_all add: wf_heap_def)
  have d: "distinct bs" by (rule packed_distinct [OF p])
  have nin: "?nb \<notin> set bs"
  proof
    assume "?nb \<in> set bs"
    from packed_bounds [OF p this] show False by (simp add: unat_header_size)
  qed
  have n0: "?nb \<noteq> 0"
    using packed_le [OF p] nz by (metis le_zero_eq unat_eq_zero unsigned_0)
  show ?thesis
  proof (cases "bs = []")
    case True
    with ch tl have "head s = 0" "tail s = 0" by simp_all
    with True n0 show ?thesis by (simp add: new_block_def)
  next
    case False
    with ch have hd0: "head s \<noteq> 0" by (cases bs) auto
    from False tl have tl': "tail s = last bs" by simp
    from False have "last bs \<in> set bs" by simp
    with ch have tl0: "last bs \<noteq> 0" by (rule chain_nonzero)
    let ?v = "\<lparr>hd_size = sz, hd_is_free = 0, hd_next = 0\<rparr>"
    have "chain (((hdr s)(?nb := ?v))(last bs := (((hdr s)(?nb := ?v)) (last bs))\<lparr>hd_next := ?nb\<rparr>))
            (head s) (bs @ [?nb])"
      by (rule chain_snoc [OF ch False d nin n0]) simp
    with hd0 tl' tl0 show ?thesis by (simp add: new_block_def)
  qed
qed

lemma mmalloc_Inl:
  assumes "mmalloc sz s = Some (Inl e, s1)"
  shows "head s1 = head s \<and> tail s1 = tail s \<and> hdr s1 = hdr s \<and> mem s1 = mem s \<and>
         (brk s \<noteq> - 1 \<longrightarrow> s1 = s) \<and> (if sz = 0 then e = InvalidSize else e = OutOfMemory)"
  using assms
  by (auto simp: mmalloc_def sbrk_def Let_def split: if_splits option.splits prod.splits)


lemma mmalloc_reuse:
  assumes "sz \<noteq> 0" "chain (hdr s) (head s) (pre @ b # post)"
    "\<forall>x\<in>set pre. \<not> fits s sz x" "fits s sz b"
  shows "mmalloc sz s =
    Some (Inr (b + header_size), s\<lparr>hdr := (hdr s)(b := (hdr s b)\<lparr>hd_is_free := 0\<rparr>)\<rparr>)"
proof -
  have "get_free_block sz s = Some b"
    using assms by (simp add: get_free_block_def get_free_block_loop_first)
  moreover have "b \<noteq> 0" using assms(2) by (auto dest: chain_nonzero)
  ultimately show ?thesis using assms(1) by (simp add: mmalloc_def)
qed

lemma mmalloc_grow:
  assumes "sz \<noteq> 0" "chain (hdr s) (head s) bs" "\<forall>x\<in>set bs. \<not> fits s sz x"
  shows "mmalloc sz s =
    (case sbrk (header_size + sz) s of (block, s1) \<Rightarrow>
       if block = - 1 then Some (Inl OutOfMemory, s1)
       else Some (Inr (block + header_size), new_block block sz s1))"
proof -
  have "get_free_block sz s = Some 0"
    using assms by (simp add: get_free_block_def get_free_block_loop_none)
  then show ?thesis using assms(1) by (simp add: mmalloc_def)
qed

lemma mmalloc_cases:
  assumes wf: "wf_heap s bs" and sz: "sz \<noteq> 0"
  shows "(\<exists>b\<in>set bs. fits s sz b \<and>
            mmalloc sz s = Some (Inr (b + header_size),
                                 s\<lparr>hdr := (hdr s)(b := (hdr s b)\<lparr>hd_is_free := 0\<rparr>)\<rparr>)) \<or>
         ((\<forall>x\<in>set bs. \<not> fits s sz x) \<and> mmalloc sz s = Some (Inl OutOfMemory, s)) \<or>
         ((\<forall>x\<in>set bs. \<not> fits s sz x) \<and>
            mmalloc sz s = Some (Inr (brk s + header_size),
                                 new_block (brk s) sz (s\<lparr>brk := brk s + (header_size + sz)\<rparr>)))"
proof -
  from wf have ch: "chain (hdr s) (head s) bs" by (simp add: wf_heap_def)
  from get_free_block_loop_cases [OF ch, of sz] show ?thesis
  proof
    assume "\<exists>b\<in>set bs. fits s sz b \<and> get_free_block_loop sz (head s) s = Some b"
    then obtain b where b: "b \<in> set bs" "fits s sz b" "get_free_block sz s = Some b"
      by (auto simp: get_free_block_def)
    from chain_nonzero [OF ch b(1)] b sz show ?thesis
      by (auto simp: mmalloc_def)
  next
    assume nf: "(\<forall>x\<in>set bs. \<not> fits s sz x) \<and> get_free_block_loop sz (head s) s = Some 0"
    then have g: "get_free_block sz s = Some 0" by (simp add: get_free_block_def)
    from sbrk_cases [of "header_size + sz" s] show ?thesis
    proof
      assume "sbrk (header_size + sz) s = (brk s, s\<lparr>brk := brk s + (header_size + sz)\<rparr>)"
      with g sz nf wf_brk_ne_minus1 [OF wf] show ?thesis by (simp add: mmalloc_def)
    next
      assume "sbrk (header_size + sz) s = (- 1, s)"
      with g sz nf show ?thesis by (simp add: mmalloc_def)
    qed
  qed
qed

lemma mmalloc_returns:
  assumes "wf_heap s bs"
  shows "\<exists>r s'. mmalloc sz s = Some (r, s')"
proof (cases "sz = 0")
  case True
  then show ?thesis by (simp add: mmalloc_def)
next
  case False
  from mmalloc_cases [OF assms False] show ?thesis by auto
qed

lemma mmalloc_grow_wf:
  assumes wf: "wf_heap s bs" and sz: "sz \<noteq> 0" "unat sz + 24 < 2 ^ 63"
    and nofit: "\<forall>x\<in>set bs. \<not> fits s sz x"
    and room: "unat (brk s) + 24 + unat sz \<le> unat (brk_max s)"
  defines "s' \<equiv> new_block (brk s) sz (s\<lparr>brk := brk s + (header_size + sz)\<rparr>)"
  shows "mmalloc sz s = Some (Inr (brk s + header_size), s')" and "wf_heap s' (bs @ [brk s])"
proof -
  let ?nb = "brk s"
  let ?k = "header_size + sz"
  from wf have ch: "chain (hdr s) (head s) bs"
    and p: "packed (hdr s) (unat (brk_min s)) bs (unat (brk s))"
    and tl: "tail s = (if bs = [] then 0 else last bs)" and nz: "brk_min s \<noteq> 0"
    and lim: "brk s \<le> brk_max s" "unat (brk_max s) < 2 ^ 63"
    by (simp_all add: wf_heap_def)
  have d: "distinct bs" by (rule packed_distinct [OF p])
  have k: "unat ?k = 24 + unat sz"
    using sz(2) by (subst unat_add_small) (simp_all add: unat_header_size)
  have k63: "unat ?k < 2 ^ 63" using k sz(2) by simp
  have "sbrk ?k s = (brk s, s\<lparr>brk := brk s + ?k\<rparr>)"
    using sbrk_grow [OF k63 wf_brk_min [OF wf]] room k by simp
  moreover have "brk s \<noteq> - 1"
  proof
    assume "brk s = - 1"
    then have "unat (brk s) = 2 ^ 64 - 1"
      by (simp add: unsigned_minus_1_eq_mask mask_eq_exp_minus_1)
    with lim show False by (simp add: word_le_nat_alt)
  qed
  ultimately show "mmalloc sz s = Some (Inr (brk s + header_size), s')"
    using mmalloc_grow [OF sz(1) ch nofit] by (simp add: s'_def)
  have nin: "?nb \<notin> set bs"
  proof
    assume "?nb \<in> set bs"
    from packed_bounds [OF p this] show False by (simp add: unat_header_size)
  qed
  have n0: "?nb \<noteq> 0"
    using packed_le [OF p] nz by (metis le_zero_eq unat_eq_zero unsigned_0)
  have nbrk: "unat (brk s + ?k) = unat (brk s) + 24 + unat sz"
    using room lim(2) k by (subst unat_add_small) simp_all
  have le: "brk s + ?k \<le> brk_max s"
    using nbrk room by (simp add: word_le_nat_alt)
  show "wf_heap s' (bs @ [brk s])"
  proof (cases "bs = []")
    case True
    with ch tl have "head s = 0" "tail s = 0" by simp_all
    with True p n0 nz lim le nbrk sz(1) show ?thesis
      by (simp add: wf_heap_def s'_def new_block_def unat_header_size)
  next
    case False
    with ch have hd0: "head s \<noteq> 0" by (cases bs) auto
    from False tl have tl': "tail s = last bs" by simp
    from False have "last bs \<in> set bs" by simp
    with ch have tl0: "last bs \<noteq> 0" by (rule chain_nonzero)
    let ?v = "\<lparr>hd_size = sz, hd_is_free = 0, hd_next = 0\<rparr>"
    let ?h2 = "((hdr s)(?nb := ?v))(last bs := (((hdr s)(?nb := ?v)) (last bs))\<lparr>hd_next := ?nb\<rparr>)"
    have c2: "chain ?h2 (head s) (bs @ [?nb])"
      by (rule chain_snoc [OF ch False d nin n0]) simp
    have "packed ?h2 (unat (brk_min s)) bs (unat (brk s))
        = packed (hdr s) (unat (brk_min s)) bs (unat (brk s))"
      using nin by (intro packed_cong) auto
    with p have "packed ?h2 (unat (brk_min s)) bs (unat (brk s))" by simp
    moreover have "packed ?h2 (unat (brk s)) [?nb] (unat (brk s + ?k))"
      using nbrk sz(1) nin \<open>last bs \<in> set bs\<close> by (auto simp: unat_header_size)
    ultimately have p2: "packed ?h2 (unat (brk_min s)) (bs @ [?nb]) (unat (brk s + ?k))"
      unfolding packed_append by blast
    show ?thesis
      using c2 p2 hd0 tl' tl0 nz lim le
      by (simp add: wf_heap_def s'_def new_block_def)
  qed
qed

lemma mmalloc_keeps_wf:
  assumes wf: "wf_heap s bs" and bound: "unat sz + 24 < 2 ^ 63"
    and m: "mmalloc sz s = Some (r, s')"
  shows "\<exists>bs'. wf_heap s' bs' \<and> set bs \<subseteq> set bs'"
proof (cases "sz = 0")
  case True
  with m wf show ?thesis by (auto simp: mmalloc_def)
next
  case sz: False
  from mmalloc_cases [OF wf sz] show ?thesis
  proof (elim disjE bexE conjE)
    fix b
    assume "b \<in> set bs"
      and "mmalloc sz s = Some (Inr (b + header_size),
              s\<lparr>hdr := (hdr s)(b := (hdr s b)\<lparr>hd_is_free := 0\<rparr>)\<rparr>)"
    with m wf_flag_update [OF wf, of b 0] show ?thesis by auto
  next
    assume "mmalloc sz s = Some (Inl OutOfMemory, s)"
    with m wf show ?thesis by auto
  next
    assume nofit: "\<forall>x\<in>set bs. \<not> fits s sz x"
      and g: "mmalloc sz s = Some (Inr (brk s + header_size),
              new_block (brk s) sz (s\<lparr>brk := brk s + (header_size + sz)\<rparr>))"
    have k: "unat (header_size + sz) = 24 + unat sz"
      using bound by (subst unat_add_small) (simp_all add: unat_header_size)
    have "unat (brk s) + 24 + unat sz \<le> unat (brk_max s)"
    proof (rule ccontr)
      assume "\<not> unat (brk s) + 24 + unat sz \<le> unat (brk_max s)"
      with sbrk_grow [of "header_size + sz" s] k bound wf_brk_min [OF wf]
      have "sbrk (header_size + sz) s = (- 1, s)" by simp
      with mmalloc_grow [OF sz _ nofit] wf have "mmalloc sz s = Some (Inl OutOfMemory, s)"
        by (simp add: wf_heap_def)
      with g show False by simp
    qed
    from mmalloc_grow_wf [OF wf sz bound nofit this] g m show ?thesis by auto
  qed
qed

lemma mmalloc_block:
  assumes wf: "wf_heap s bs" and sz: "sz \<noteq> 0" "unat sz + 24 < 2 ^ 63"
    and m: "mmalloc sz s = Some (Inr p, s')"
  shows "\<exists>bs'. wf_heap s' bs' \<and> p - header_size \<in> set bs' \<and>
           hd_is_free (hdr s' (p - header_size)) = 0 \<and>
           sz \<le> hd_size (hdr s' (p - header_size)) \<and>
           (p - header_size \<in> set bs \<longrightarrow> hd_is_free (hdr s (p - header_size)) \<noteq> 0) \<and>
           set bs \<subseteq> set bs' \<and> (\<forall>x\<in>set bs. hd_size (hdr s' x) = hd_size (hdr s x))"
proof -
  from mmalloc_cases [OF wf sz(1)] show ?thesis
  proof (elim disjE bexE conjE)
    fix b
    assume b: "b \<in> set bs" "fits s sz b"
      and "mmalloc sz s = Some (Inr (b + header_size),
              s\<lparr>hdr := (hdr s)(b := (hdr s b)\<lparr>hd_is_free := 0\<rparr>)\<rparr>)"
    with m have p: "p = b + header_size"
      and s': "s' = s\<lparr>hdr := (hdr s)(b := (hdr s b)\<lparr>hd_is_free := 0\<rparr>)\<rparr>" by simp_all
    from wf_flag_update [OF wf b(1), of 0] s' have "wf_heap s' bs" by simp
    with b p s' show ?thesis by (auto simp: fits_def)
  next
    assume "mmalloc sz s = Some (Inl OutOfMemory, s)"
    with m show ?thesis by simp
  next
    assume nofit: "\<forall>x\<in>set bs. \<not> fits s sz x"
      and g: "mmalloc sz s = Some (Inr (brk s + header_size),
              new_block (brk s) sz (s\<lparr>brk := brk s + (header_size + sz)\<rparr>))"
    with m have p: "p = brk s + header_size"
      and s': "s' = new_block (brk s) sz (s\<lparr>brk := brk s + (header_size + sz)\<rparr>)" by simp_all
    from mmalloc_keeps_wf [OF wf sz(2) m] obtain bs0 where "wf_heap s' bs0" by blast
    have k: "unat (header_size + sz) = 24 + unat sz"
      using sz(2) by (subst unat_add_small) (simp_all add: unat_header_size)
    have room: "unat (brk s) + 24 + unat sz \<le> unat (brk_max s)"
    proof (rule ccontr)
      assume "\<not> unat (brk s) + 24 + unat sz \<le> unat (brk_max s)"
      with sbrk_grow [of "header_size + sz" s] k sz(2) wf_brk_min [OF wf]
      have "sbrk (header_size + sz) s = (- 1, s)" by simp
      with mmalloc_grow [OF sz(1) _ nofit] wf have "mmalloc sz s = Some (Inl OutOfMemory, s)"
        by (simp add: wf_heap_def)
      with g show False by simp
    qed
    from mmalloc_grow_wf(2) [OF wf sz nofit room] s' have wf': "wf_heap s' (bs @ [brk s])"
      by simp
    have nin: "brk s \<notin> set bs"
    proof
      assume "brk s \<in> set bs"
      from wf_block(2) [OF wf this] show False by simp
    qed
    have "hdr s' (brk s) = \<lparr>hd_size = sz, hd_is_free = 0, hd_next = 0\<rparr>"
      using wf_tail_ne_brk [OF wf] by (simp add: s' new_block_new)
    moreover have "\<forall>x\<in>set bs. hd_size (hdr s' x) = hd_size (hdr s x)"
    proof
      fix x assume "x \<in> set bs"
      with nin have "x \<noteq> brk s" by auto
      then show "hd_size (hdr s' x) = hd_size (hdr s x)" by (simp add: s' new_block_old(1))
    qed
    ultimately show ?thesis using wf' p nin by (intro exI [of _ "bs @ [brk s]"]) auto
  qed
qed

lemma mmalloc_region:
  assumes wf: "wf_heap s bs" and sz: "sz \<noteq> 0" "unat sz + 24 < 2 ^ 63"
    and m: "mmalloc sz s = Some (Inr p, s')"
  shows "\<exists>bs'. wf_heap s' bs' \<and> p - header_size \<in> set bs' \<and>
           hd_is_free (hdr s' (p - header_size)) = 0 \<and>
           (p - header_size \<in> set bs \<longrightarrow> hd_is_free (hdr s (p - header_size)) \<noteq> 0) \<and>
           unat p = unat (p - header_size) + 24 \<and>
           sz \<le> hd_size (hdr s' (p - header_size)) \<and>
           unat (brk_min s') \<le> unat (p - header_size) \<and>
           unat p + unat sz \<le> unat (brk s') \<and>
           (\<forall>b\<in>set bs'. b \<noteq> p - header_size \<longrightarrow>
              unat b + 24 + unat (hd_size (hdr s' b)) \<le> unat (p - header_size) \<or>
              unat p + unat (hd_size (hdr s' (p - header_size))) \<le> unat b)"
proof -
  let ?h = "p - header_size"
  from mmalloc_block [OF assms] obtain bs' where wf': "wf_heap s' bs'" and h: "?h \<in> set bs'"
    and live: "hd_is_free (hdr s' ?h) = 0" and big: "sz \<le> hd_size (hdr s' ?h)"
    and was: "?h \<in> set bs \<longrightarrow> hd_is_free (hdr s ?h) \<noteq> 0" by blast
  note blk = wf_block [OF wf' h]
  have up: "unat p = unat ?h + 24" using blk(5) by simp
  from big have "unat sz \<le> unat (hd_size (hdr s' ?h))" by (simp add: word_le_nat_alt)
  with blk(2) up have inside: "unat p + unat sz \<le> unat (brk s')" by simp
  from wf' have pk: "packed (hdr s') (unat (brk_min s')) bs' (unat (brk s'))"
    by (simp add: wf_heap_def)
  have "\<forall>b\<in>set bs'. b \<noteq> ?h \<longrightarrow>
              unat b + 24 + unat (hd_size (hdr s' b)) \<le> unat ?h \<or>
              unat p + unat (hd_size (hdr s' ?h)) \<le> unat b"
  proof (intro ballI impI)
    fix b assume "b \<in> set bs'" "b \<noteq> ?h"
    from packed_disjoint [OF pk this(1) h this(2)] up
    show "unat b + 24 + unat (hd_size (hdr s' b)) \<le> unat ?h \<or>
          unat p + unat (hd_size (hdr s' ?h)) \<le> unat b"
      by (simp add: unat_header_size)
  qed
  with wf' h live was up big blk(1) inside show ?thesis by blast
qed

lemma mmalloc_growth_steps:
  assumes "wf_heap s bs" "sz \<noteq> 0" "\<forall>x\<in>set bs. \<not> fits s sz x"
  shows "(fst (sbrk (header_size + sz) s) = - 1 \<longrightarrow> mmalloc sz s = Some (Inl OutOfMemory, s)) \<and>
         (fst (sbrk (header_size + sz) s) \<noteq> - 1 \<longrightarrow>
            fst (sbrk (header_size + sz) s) = brk s \<and>
            (\<exists>s'. mmalloc sz s = Some (Inr (brk s + header_size), s') \<and>
               brk s' = brk s + (header_size + sz) \<and>
               hdr s' (brk s) = \<lparr>hd_size = sz, hd_is_free = 0, hd_next = 0\<rparr> \<and>
               head s' = (if head s = 0 then brk s else head s) \<and>
               (tail s \<noteq> 0 \<longrightarrow> hdr s' (tail s) = (hdr s (tail s))\<lparr>hd_next := brk s\<rparr>) \<and>
               tail s' = brk s \<and>
               (\<forall>a. a \<noteq> brk s \<and> a \<noteq> tail s \<longrightarrow> hdr s' a = hdr s a) \<and>
               mem s' = mem s \<and> brk_min s' = brk_min s \<and> brk_max s' = brk_max s)) \<and>
         (head s = 0) = (bs = []) \<and> (tail s = 0) = (bs = [])"
proof -
  let ?k = "header_size + sz"
  from assms(1) have ch: "chain (hdr s) (head s) bs"
    and tl: "tail s = (if bs = [] then 0 else last bs)" by (simp_all add: wf_heap_def)
  note m = mmalloc_grow [OF assms(2) ch assms(3)]
  note nb = wf_tail_ne_brk [OF assms(1)]
  note n1 = wf_brk_ne_minus1 [OF assms(1)]
  have e1: "(head s = 0) = (bs = [])" using ch by (cases bs) auto
  have e2: "(tail s = 0) = (bs = [])"
  proof (cases "bs = []")
    case True
    with tl show ?thesis by simp
  next
    case False
    then have "last bs \<in> set bs" by simp
    from chain_nonzero [OF ch this] tl False show ?thesis by simp
  qed
  from sbrk_cases [of ?k s] show ?thesis
  proof
    assume ok: "sbrk ?k s = (brk s, s\<lparr>brk := brk s + ?k\<rparr>)"
    let ?s' = "new_block (brk s) sz (s\<lparr>brk := brk s + ?k\<rparr>)"
    from ok n1 m have "mmalloc sz s = Some (Inr (brk s + header_size), ?s')" by simp
    moreover have "hdr ?s' (brk s) = \<lparr>hd_size = sz, hd_is_free = 0, hd_next = 0\<rparr>"
      using nb by (simp add: new_block_new)
    moreover have "tail s \<noteq> 0 \<longrightarrow> hdr ?s' (tail s) = (hdr s (tail s))\<lparr>hd_next := brk s\<rparr>"
      using nb new_block_link [of "s\<lparr>brk := brk s + ?k\<rparr>" "brk s" sz] by simp
    moreover have "\<forall>a. a \<noteq> brk s \<and> a \<noteq> tail s \<longrightarrow> hdr ?s' a = hdr s a"
      by (simp add: new_block_old)
    ultimately have "\<exists>s'. mmalloc sz s = Some (Inr (brk s + header_size), s') \<and>
               brk s' = brk s + (header_size + sz) \<and>
               hdr s' (brk s) = \<lparr>hd_size = sz, hd_is_free = 0, hd_next = 0\<rparr> \<and>
               head s' = (if head s = 0 then brk s else head s) \<and>
               (tail s \<noteq> 0 \<longrightarrow> hdr s' (tail s) = (hdr s (tail s))\<lparr>hd_next := brk s\<rparr>) \<and>
               tail s' = brk s \<and>
               (\<forall>a. a \<noteq> brk s \<and> a \<noteq> tail s \<longrightarrow> hdr s' a = hdr s a) \<and>
               mem s' = mem s \<and> brk_min s' = brk_min s \<and> brk_max s' = brk_max s"
      by (intro exI [of _ ?s']) (simp add: new_block_fields)
    with ok n1 e1 e2 show ?thesis by simp
  next
    assume "sbrk ?k s = (- 1, s)"
    with m e1 e2 show ?thesis by simp
  qed
qed

lemma mmalloc_growth_steps_example:
  "mmalloc 10 heap_a = Some (Inl OutOfMemory, heap_a) \<and>
   (\<exists>s'. mmalloc 4 (init 4096 8192) = Some (Inr 4120, s') \<and> brk s' = 4124 \<and>
      hdr s' 4096 = \<lparr>hd_size = 4, hd_is_free = 0, hd_next = 0\<rparr> \<and>
      head s' = 4096 \<and> tail s' = 4096)"
proof -
  have a: "\<forall>x\<in>set [4096]. \<not> fits heap_a 10 x" by (simp add: fits_def heap_a_def)
  have b: "fst (sbrk (header_size + 10) heap_a) = - 1"
    by (simp add: sbrk_def heap_a_def header_size_def)
  have w: "wf_heap (init 4096 8192) []" by (simp add: init_wf)
  have c: "fst (sbrk (header_size + 4) (init 4096 8192)) \<noteq> - 1"
    by (simp add: sbrk_def init_def header_size_def)
  from mmalloc_growth_steps [OF heap_a_wf _ a] b
  have "mmalloc 10 heap_a = Some (Inl OutOfMemory, heap_a)" by simp
  moreover from mmalloc_growth_steps [OF w, of 4] c
  have "\<exists>s'. mmalloc 4 (init 4096 8192) = Some (Inr 4120, s') \<and> brk s' = 4124 \<and>
      hdr s' 4096 = \<lparr>hd_size = 4, hd_is_free = 0, hd_next = 0\<rparr> \<and>
      head s' = 4096 \<and> tail s' = 4096"
    by (simp add: header_size_def init_def) blast
  ultimately show ?thesis by simp
qed

subsection \<open>\<^verbatim>\<open>ffree\<close>\<close>

text \<open>
  The loop unlinks the last node of a chain; on every chain it returns. \<^verbatim>\<open>ffree\<close> of a
  block of the list keeps the state well formed.
\<close>

lemma ffree_loop_pred:
  "chain (hdr s) p (cs @ [t]) \<Longrightarrow> cs \<noteq> [] \<Longrightarrow> distinct (cs @ [t]) \<Longrightarrow> tail s = t \<Longrightarrow>
   ffree_loop p s =
     Some (s\<lparr>hdr := (hdr s)(last cs := (hdr s (last cs))\<lparr>hd_next := 0\<rparr>), tail := last cs\<rparr>)"
proof (induction cs arbitrary: p)
  case Nil
  then show ?case by simp
next
  case (Cons c cs)
  from Cons.prems have c: "p = c" "c \<noteq> 0" and rest: "chain (hdr s) (hd_next (hdr s c)) (cs @ [t])"
    by simp_all
  show ?case
  proof (cases "cs = []")
    case True
    with rest have "hd_next (hdr s c) = t" by simp
    with c True Cons.prems(4) show ?thesis
      by (subst ffree_loop.simps) (simp add: ffree_loop.simps)
  next
    case False
    then obtain d ds where cs: "cs = d # ds" by (cases cs) auto
    with rest have nx: "hd_next (hdr s c) = d" by simp
    from cs Cons.prems(3) have "d \<noteq> t" by auto
    with nx Cons.prems(4) have ne: "hd_next (hdr s c) \<noteq> tail s" by simp
    from Cons.prems(3) have "distinct (cs @ [t])" by simp
    from Cons.IH [OF rest False this Cons.prems(4)]
    have "ffree_loop (hd_next (hdr s c)) s =
        Some (s\<lparr>hdr := (hdr s)(last cs := (hdr s (last cs))\<lparr>hd_next := 0\<rparr>), tail := last cs\<rparr>)" .
    with c ne False show ?thesis
      by (subst ffree_loop.simps) simp
  qed
qed

lemma ffree_loop_returns: "chain (hdr s) p bs \<Longrightarrow> \<exists>s'. ffree_loop p s = Some s'"
proof (induction bs arbitrary: p)
  case Nil
  then show ?case by (simp add: ffree_loop.simps)
next
  case (Cons b bs)
  then have b: "p = b" "b \<noteq> 0" and rest: "chain (hdr s) (hd_next (hdr s b)) bs" by simp_all
  show ?case
  proof (cases "hd_next (hdr s b) = tail s")
    case True
    with b show ?thesis by (subst ffree_loop.simps) (simp add: ffree_loop.simps)
  next
    case False
    with b Cons.IH [OF rest] show ?thesis by (subst ffree_loop.simps) simp
  qed
qed



lemma ffree_returns:
  assumes "chain (hdr s) (head s) bs"
  shows "\<exists>s'. ffree block s = Some s'"
  using ffree_loop_returns [OF assms]
  by (auto simp: ffree_def Let_def)

lemma ffree_mark:
  assumes "block \<noteq> 0" "block + hd_size (hdr s (block - header_size)) \<noteq> fst (sbrk 0 s)"
  shows "ffree block s =
    Some (s\<lparr>hdr := (hdr s)(block - header_size := (hdr s (block - header_size))\<lparr>hd_is_free := 1\<rparr>)\<rparr>)"
  using assms by (simp add: ffree_def Let_def)

lemma ffree_tail:
  assumes wf: "wf_heap s (cs @ [h])"
  defines "sz \<equiv> hd_size (hdr s h)"
  defines "s' \<equiv> (if cs = [] then s\<lparr>head := 0, tail := 0, brk := brk s - (header_size + sz)\<rparr>
                  else s\<lparr>hdr := (hdr s)(last cs := (hdr s (last cs))\<lparr>hd_next := 0\<rparr>),
                         tail := last cs, brk := brk s - (header_size + sz)\<rparr>)"
  shows "ffree (h + header_size) s = Some s'" and "wf_heap s' cs"
    and "(head s = tail s) = (cs = [])"
proof -
  let ?bs = "cs @ [h]"
  have h: "h \<in> set ?bs" by simp
  note blk = wf_block [OF wf h]
  from wf have ch: "chain (hdr s) (head s) ?bs"
    and p: "packed (hdr s) (unat (brk_min s)) ?bs (unat (brk s))"
    and tl: "tail s = h" and nz: "brk_min s \<noteq> 0"
    and lim: "brk s \<le> brk_max s" "unat (brk_max s) < 2 ^ 63"
    by (simp_all add: wf_heap_def)
  have d: "distinct ?bs" by (rule packed_distinct [OF p])
  have b0: "h + header_size \<noteq> 0"
    using blk(5) by (metis add_is_0 unat_eq_zero zero_neq_numeral)
  have rd: "fst (sbrk 0 s) = brk s"
    using sbrk_read [OF wf_brk_min [OF wf] lim(1)] by simp
  have test: "h + header_size + sz = brk s"
    using wf_last_test [OF wf h] by (simp add: sz_def)
  show ht: "(head s = tail s) = (cs = [])"
  proof (cases cs)
    case Nil
    with ch tl show ?thesis by simp
  next
    case (Cons c cs')
    with ch have "head s = c" by simp
    moreover from Cons d have "c \<noteq> h" by auto
    ultimately show ?thesis using tl Cons by simp
  qed
  have k: "unat (header_size + sz) < 2 ^ 63"
    using blk(2,4,7) by (simp add: sz_def)
  have lo: "unat (brk_min s) + unat (header_size + sz) \<le> unat (brk s)"
    using blk(1,2,7) by (simp add: sz_def)
  have neg: "0 - header_size - sz = - (header_size + sz)" by simp
  have unlink: "(if head s = tail s then Some (s\<lparr>head := 0, tail := 0\<rparr>) else ffree_loop (head s) s)
      = Some (if cs = [] then s\<lparr>head := 0, tail := 0\<rparr>
              else s\<lparr>hdr := (hdr s)(last cs := (hdr s (last cs))\<lparr>hd_next := 0\<rparr>), tail := last cs\<rparr>)"
  proof (cases "cs = []")
    case True
    with ht show ?thesis by simp
  next
    case False
    with ht ffree_loop_pred [OF ch False d tl] show ?thesis by simp
  qed
  have szs: "hd_size (((hdr s)(last cs := (hdr s (last cs))\<lparr>hd_next := 0\<rparr>)) h) = sz"
    by (simp add: sz_def)
  show "ffree (h + header_size) s = Some s'"
  proof (cases "cs = []")
    case True
    have "sbrk (- (header_size + sz)) (s\<lparr>head := 0, tail := 0\<rparr>) =
       (brk s, s\<lparr>head := 0, tail := 0, brk := brk s - (header_size + sz)\<rparr>)"
      using sbrk_shrink [of "header_size + sz" "s\<lparr>head := 0, tail := 0\<rparr>"] k lo lim by simp
    then show ?thesis
      using b0 rd test True unlink
      by (simp add: ffree_def Let_def sz_def [symmetric] s'_def neg)
  next
    case False
    let ?s1 = "s\<lparr>hdr := (hdr s)(last cs := (hdr s (last cs))\<lparr>hd_next := 0\<rparr>), tail := last cs\<rparr>"
    have "sbrk (- (header_size + sz)) ?s1 = (brk s, ?s1\<lparr>brk := brk s - (header_size + sz)\<rparr>)"
      using sbrk_shrink [of "header_size + sz" ?s1] k lo lim by simp
    then show ?thesis
      using b0 rd test False unlink szs
      by (simp add: ffree_def Let_def sz_def [symmetric] s'_def neg)
  qed
  from p obtain m where pm: "packed (hdr s) (unat (brk_min s)) cs m"
    and pl: "packed (hdr s) m [h] (unat (brk s))"
    by (auto simp: packed_append)
  from pl have m: "m = unat h" by simp
  have "unat (brk s - (header_size + sz)) = unat (brk s) - unat (header_size + sz)"
    using lo by (intro unat_sub) (simp add: word_le_nat_alt)
  with blk(7) pl have nb: "unat (brk s - (header_size + sz)) = unat h"
    by (auto simp: sz_def header_size_def)
  have le: "brk s - (header_size + sz) \<le> brk_max s"
    using nb blk(2) lim(1) by (simp add: word_le_nat_alt)
  show "wf_heap s' cs"
  proof (cases "cs = []")
    case True
    with pm m nb nz lim le show ?thesis by (simp add: wf_heap_def s'_def)
  next
    case False
    have "chain ((hdr s)(last cs := (hdr s (last cs))\<lparr>hd_next := 0\<rparr>)) (head s) cs"
      by (rule chain_butlast [OF ch False d])
    moreover have "packed ((hdr s)(last cs := (hdr s (last cs))\<lparr>hd_next := 0\<rparr>)) (unat (brk_min s)) cs (unat h)"
      using pm m by (subst packed_cong [where h = "hdr s"]) simp_all
    ultimately show ?thesis
      using False nb nz lim le by (simp add: wf_heap_def s'_def)
  qed
qed

lemma ffree_in_list:
  assumes wf: "wf_heap s bs" and h: "block - header_size \<in> set bs"
  defines "sz \<equiv> hd_size (hdr s (block - header_size))"
  defines "pred \<equiv> last (butlast bs)"
  shows "block \<noteq> 0 \<and>
    (block + sz = brk s \<longrightarrow>
          block - header_size = last bs \<and> tail s = last bs \<and>
          (head s = tail s) = (butlast bs = []) \<and>
          (butlast bs \<noteq> [] \<longrightarrow> hd_next (hdr s pred) = tail s) \<and>
          (\<exists>s'. ffree block s = Some s' \<and>
                s' = (if head s = tail s
                      then s\<lparr>head := 0, tail := 0, brk := brk s - (header_size + sz)\<rparr>
                      else s\<lparr>hdr := (hdr s)(pred := (hdr s pred)\<lparr>hd_next := 0\<rparr>),
                             tail := pred, brk := brk s - (header_size + sz)\<rparr>) \<and>
                wf_heap s' (butlast bs))) \<and>
    (block + sz \<noteq> brk s \<longrightarrow>
          ffree block s =
            Some (s\<lparr>hdr := (hdr s)(block - header_size :=
                          (hdr s (block - header_size))\<lparr>hd_is_free := 1\<rparr>)\<rparr>))"
proof -
  let ?h = "block - header_size"
  have blk: "block = ?h + header_size" by simp
  have b0: "block \<noteq> 0"
    using wf_block(5) [OF wf h] by (metis add_is_0 blk unat_eq_zero zero_neq_numeral)
  have rd: "fst (sbrk 0 s) = brk s" by (rule wf_sbrk_read [OF wf])
  have test: "(block + sz = brk s) = (?h = last bs)"
    using wf_last_test [OF wf h] by (simp add: sz_def)
  show ?thesis
  proof (cases "block + sz = brk s")
    case True
    with test have l: "?h = last bs" by simp
    from h have ne: "bs \<noteq> []" by auto
    with l have bs: "bs = butlast bs @ [?h]" by simp
    from wf bs have wf': "wf_heap s (butlast bs @ [?h])" by simp
    from wf ne have tl: "tail s = last bs" by (simp add: wf_heap_def)
    from wf' have ch: "chain (hdr s) (head s) (butlast bs @ [?h])" by (simp add: wf_heap_def)
    note ft = ffree_tail [OF wf']
    have nx: "butlast bs \<noteq> [] \<longrightarrow> hd_next (hdr s pred) = tail s"
      using chain_last_next [OF ch] tl l by (simp add: pred_def)
    define s' where "s' = (if butlast bs = []
              then s\<lparr>head := 0, tail := 0, brk := brk s - (header_size + sz)\<rparr>
              else s\<lparr>hdr := (hdr s)(pred := (hdr s pred)\<lparr>hd_next := 0\<rparr>),
                     tail := pred, brk := brk s - (header_size + sz)\<rparr>)"
    have f1: "ffree block s = Some s'"
      using ft(1) unfolding s'_def sz_def pred_def by simp
    have f2: "wf_heap s' (butlast bs)"
      using ft(2) unfolding s'_def sz_def pred_def .
    have f3: "s' = (if head s = tail s
                      then s\<lparr>head := 0, tail := 0, brk := brk s - (header_size + sz)\<rparr>
                      else s\<lparr>hdr := (hdr s)(pred := (hdr s pred)\<lparr>hd_next := 0\<rparr>),
                             tail := pred, brk := brk s - (header_size + sz)\<rparr>)"
      unfolding s'_def using ft(3) by simp
    from f1 f2 f3 have "\<exists>s'. ffree block s = Some s' \<and>
                s' = (if head s = tail s
                      then s\<lparr>head := 0, tail := 0, brk := brk s - (header_size + sz)\<rparr>
                      else s\<lparr>hdr := (hdr s)(pred := (hdr s pred)\<lparr>hd_next := 0\<rparr>),
                             tail := pred, brk := brk s - (header_size + sz)\<rparr>) \<and>
                wf_heap s' (butlast bs)" by blast
    with b0 True l tl ft(3) nx show ?thesis by blast
  next
    case False
    with b0 rd ffree_mark [of block s] show ?thesis by (simp add: sz_def)
  qed
qed

lemma ffree_in_list_example:
  "ffree 4180 heap_abc =
     Some (heap_abc\<lparr>hdr := (hdr heap_abc)(4124 := (hdr heap_abc 4124)\<lparr>hd_next := 0\<rparr>),
                    tail := 4124, brk := 4156\<rparr>) \<and>
   ffree 4148 heap_abc =
     Some (heap_abc\<lparr>hdr := (hdr heap_abc)(4124 := (hdr heap_abc 4124)\<lparr>hd_is_free := 1\<rparr>)\<rparr>) \<and>
   ffree 4120 heap_a = Some (heap_a\<lparr>head := 0, tail := 0, brk := 4096\<rparr>)"
proof -
  have a: "(4180::addr) - header_size \<in> set [4096, 4124, 4156]"
    and b: "(4148::addr) - header_size \<in> set [4096, 4124, 4156]"
    and c: "(4120::addr) - header_size \<in> set [4096]"
    by (simp_all add: header_size_def)
  from ffree_in_list [OF heap_abc_wf a] ffree_in_list [OF heap_abc_wf b]
    ffree_in_list [OF heap_a_wf c]
  show ?thesis by (simp add: header_size_def heap_abc_def heap_a_def)
qed

lemma ffree_keeps_wf:
  assumes wf: "wf_heap s bs" and b: "block = 0 \<or> block - header_size \<in> set bs"
  shows "\<exists>s' bs'. ffree block s = Some s' \<and> wf_heap s' bs' \<and> set bs' \<subseteq> set bs"
proof (cases "block = 0")
  case True
  with wf show ?thesis by (auto simp: ffree_def)
next
  case False
  let ?h = "block - header_size"
  from False b have h: "?h \<in> set bs" by simp
  show ?thesis
  proof (cases "?h = last bs")
    case True
    from h have "bs \<noteq> []" by auto
    with True have bs: "bs = butlast bs @ [?h]" by simp
    with wf have "wf_heap s (butlast bs @ [?h])" by simp
    from ffree_tail(1,2) [OF this] show ?thesis
      by (auto simp del: butlast.simps dest: in_set_butlastD)
  next
    case nl: False
    with wf_last_test [OF wf h] wf_sbrk_read [OF wf]
    have "block + hd_size (hdr s ?h) \<noteq> fst (sbrk 0 s)" by simp
    from ffree_mark [OF False this] wf_flag_update [OF wf h, of 1] show ?thesis by auto
  qed
qed

subsection \<open>\<^verbatim>\<open>ccalloc\<close>, \<^verbatim>\<open>rrealloc\<close> and a run from program start\<close>

text \<open>
  Both keep the state well formed. The run A, B, C, release A, D from program start, for
  any break, and the runs that produce the two concrete states.
\<close>

lemma ccalloc_keeps_wf:
  assumes wf: "wf_heap s bs" and bound: "unat (num * nsize) + 24 < 2 ^ 63"
    and c: "ccalloc num nsize s = Some (r, s')"
  shows "\<exists>bs'. wf_heap s' bs' \<and> set bs \<subseteq> set bs'"
proof -
  have "s' = s \<or> (\<exists>r1 s1. mmalloc (num * nsize) s = Some (r1, s1) \<and>
          (s' = s1 \<or> s' = memset (ptr_of r1) 0 (num * nsize) s1))"
    using c by (auto simp: ccalloc_def Let_def split: if_splits option.splits)
  then show ?thesis
  proof (elim disjE exE conjE)
    assume "s' = s"
    with wf show ?thesis by auto
  next
    fix r1 s1
    assume m: "mmalloc (num * nsize) s = Some (r1, s1)" and "s' = s1"
    with mmalloc_keeps_wf [OF wf bound m] show ?thesis by simp
  next
    fix r1 s1
    assume m: "mmalloc (num * nsize) s = Some (r1, s1)"
      and "s' = memset (ptr_of r1) 0 (num * nsize) s1"
    with mmalloc_keeps_wf [OF wf bound m] show ?thesis by (simp add: wf_memset)
  qed
qed

lemma rrealloc_keeps_wf:
  assumes wf: "wf_heap s bs" and bound: "unat sz + 24 < 2 ^ 63"
    and b: "block = 0 \<or> block - header_size \<in> set bs"
  shows "\<exists>r s' bs'. rrealloc block sz s = Some (r, s') \<and> wf_heap s' bs'"
proof -
  from mmalloc_returns [OF wf] obtain r1 s1 where m: "mmalloc sz s = Some (r1, s1)" by blast
  from mmalloc_keeps_wf [OF wf bound m] obtain bs1
    where wf1: "wf_heap s1 bs1" and sub: "set bs \<subseteq> set bs1" by blast
  show ?thesis
  proof (cases "block = 0 \<or> sz = 0")
    case True
    with m wf1 show ?thesis by (auto simp: rrealloc_def)
  next
    case False
    with b sub have h1: "block - header_size \<in> set bs1" by auto
    show ?thesis
    proof (cases "sz \<le> hd_size (hdr s (block - header_size))")
      case True
      with False wf show ?thesis by (auto simp: rrealloc_def Let_def)
    next
      case big: False
      show ?thesis
      proof (cases "ptr_of r1 = 0")
        case True
        with False big m wf1 show ?thesis by (auto simp: rrealloc_def Let_def)
      next
        case q: False
        let ?s2 = "memcpy (ptr_of r1) block (hd_size (hdr s1 (block - header_size))) s1"
        have "wf_heap ?s2 bs1" using wf1 by (simp add: wf_memcpy)
        moreover have "block - header_size \<in> set bs1" by (rule h1)
        ultimately obtain s' bs' where "ffree block ?s2 = Some s'" "wf_heap s' bs'"
          using ffree_keeps_wf [of ?s2 bs1 block] by blast
        with False big m q show ?thesis by (auto simp: rrealloc_def Let_def)
      qed
    qed
  qed
qed

lemma first_fit_scenario:
  assumes b: "b \<noteq> 0" and room: "unat b + 85 \<le> unat lim" and lim: "unat lim < 2 ^ 63"
  shows "\<exists>s1 s2 s3 s4 s5.
     mmalloc 4 (init b lim) = Some (Inr (b + 24), s1) \<and>
     mmalloc 8 s1 = Some (Inr (b + 52), s2) \<and>
     mmalloc 1 s2 = Some (Inr (b + 84), s3) \<and>
     ffree (b + 24) s3 = Some s4 \<and>
     mmalloc 2 s4 = Some (Inr (b + 24), s5)"
proof -
  let ?s0 = "init b lim"
  have bl: "unat b + 85 < 2 ^ 64" using room lim by simp
  have u: "unat (b + 28) = unat b + 28" "unat (b + 60) = unat b + 60"
    and u24: "unat (b + 24) = unat b + 24"
    using bl by (simp_all add: unat_add_small)
  have b24: "b + 24 \<noteq> 0" using u24 by (metis add_is_0 unat_eq_zero zero_neq_numeral)
  have ble: "b \<le> lim" using room by (simp add: word_le_nat_alt)
  have wf0: "wf_heap ?s0 []" by (rule init_wf [OF b ble lim])
  have f0: "brk ?s0 = b" "brk_max ?s0 = lim" by (simp_all add: init_def)
  define s1 where "s1 = new_block b 4 (?s0\<lparr>brk := b + (header_size + 4)\<rparr>)"
  have m1: "mmalloc 4 ?s0 = Some (Inr (b + header_size), s1)" and wf1: "wf_heap s1 [b]"
    using mmalloc_grow_wf [OF wf0, of 4] room f0 by (simp_all add: s1_def)
  have f1: "brk s1 = b + 28" "brk_max s1 = lim"
    "hdr s1 b = \<lparr>hd_size = 4, hd_is_free = 0, hd_next = 0\<rparr>"
    using b by (simp_all add: s1_def new_block_fields new_block_new header_size_def init_def)
  define s2 where "s2 = new_block (b + 28) 8 (s1\<lparr>brk := b + 28 + (header_size + 8)\<rparr>)"
  have m2: "mmalloc 8 s1 = Some (Inr (b + 28 + header_size), s2)" and wf2: "wf_heap s2 [b, b + 28]"
    using mmalloc_grow_wf [OF wf1, of 8] room f1 u by (simp_all add: s2_def fits_def)
  have f2: "brk s2 = b + 60" "brk_max s2 = lim"
    "hd_size (hdr s2 b) = 4" "hd_is_free (hdr s2 b) = 0" "hd_is_free (hdr s2 (b + 28)) = 0"
    using f1 wf_tail_ne_brk [OF wf1]
    by (simp_all add: s2_def new_block_fields new_block_old new_block_new header_size_def)
  define s3 where "s3 = new_block (b + 60) 1 (s2\<lparr>brk := b + 60 + (header_size + 1)\<rparr>)"
  have m3: "mmalloc 1 s2 = Some (Inr (b + 60 + header_size), s3)"
    and wf3: "wf_heap s3 [b, b + 28, b + 60]"
    using mmalloc_grow_wf [OF wf2, of 1] room f2 u by (simp_all add: s3_def fits_def)
  have f3: "hd_size (hdr s3 b) = 4" "brk s3 = b + 85"
    using f2 by (simp_all add: s3_def new_block_fields new_block_old header_size_def)
  define s4 where "s4 = s3\<lparr>hdr := (hdr s3)(b := (hdr s3 b)\<lparr>hd_is_free := 1\<rparr>)\<rparr>"
  have "fst (sbrk 0 s3) = brk s3"
    using sbrk_read [OF wf_brk_min [OF wf3]] wf3 by (simp add: wf_heap_def)
  then have m4: "ffree (b + 24) s3 = Some s4"
    using ffree_mark [of "b + 24" s3] wf_last_test [OF wf3, of b] u b24
    by (simp add: header_size_def s4_def f3)
  have wf4: "wf_heap s4 [b, b + 28, b + 60]"
    unfolding s4_def by (rule wf_flag_update [OF wf3]) simp
  have "fits s4 2 b" by (simp add: fits_def s4_def f3)
  with wf4 have m5: "mmalloc 2 s4 =
      Some (Inr (b + header_size), s4\<lparr>hdr := (hdr s4)(b := (hdr s4 b)\<lparr>hd_is_free := 0\<rparr>)\<rparr>)"
    using mmalloc_reuse [of 2 s4 "[]" b "[b + 28, b + 60]"] by (simp add: wf_heap_def)
  from m1 m2 m3 m4 m5 show ?thesis by (simp add: header_size_def)
qed

lemma heap_a_reached: "mmalloc 4 (init 4096 4130) = Some (Inr 4120, heap_a)"
  by (simp add: init_def mmalloc_def get_free_block_def get_free_block_loop.simps sbrk_def
      header_size_def new_block_def heap_a_def)

lemma heap_abc_reached:
  "\<exists>s1 s2 s3.
     mmalloc 4 (init 4096 8192) = Some (Inr 4120, s1) \<and>
     mmalloc 8 s1 = Some (Inr 4148, s2) \<and>
     mmalloc 1 s2 = Some (Inr 4180, s3) \<and>
     ffree 4120 s3 = Some heap_abc"
  by (simp add: init_def mmalloc_def get_free_block_def get_free_block_loop.simps sbrk_def
      header_size_def new_block_def ffree_def Let_def heap_abc_def fun_upd_twist)

subsection \<open>After a request that wraps\<close>

text \<open>
  Public calls from program start produce \<open>heap_wrapped\<close> and \<open>heap_cyclic\<close>. In the second
  the tail is its own successor: there is no chain from \<^verbatim>\<open>head\<close>, and the search for two
  bytes never returns.
\<close>

lemma heap_wrapped_reached:
  "\<exists>s1. mmalloc 1 (init 4096 8192) = Some (Inr 4120, s1) \<and>
        mmalloc 18446744073709551592 s1 = Some (Inr 4145, heap_wrapped)"
  by (simp add: init_def mmalloc_def get_free_block_def get_free_block_loop.simps sbrk_def
      header_size_def new_block_def heap_wrapped_def fun_upd_twist)

lemma heap_cyclic_reached: "mmalloc 1 heap_wrapped = Some (Inr 4145, heap_cyclic)"
  by (simp add: mmalloc_def get_free_block_def get_free_block_loop.simps sbrk_def
      header_size_def new_block_def heap_wrapped_def heap_cyclic_def fun_upd_twist)

lemma heap_cyclic_no_chain: "\<not> chain (hdr heap_cyclic) (head heap_cyclic) bs"
proof
  assume c: "chain (hdr heap_cyclic) (head heap_cyclic) bs"
  then obtain cs where "chain (hdr heap_cyclic) 4121 cs"
    by (cases bs) (auto simp: heap_cyclic_def)
  moreover have "hd_next (hdr heap_cyclic 4121) = 4121" by (simp add: heap_cyclic_def)
  ultimately show False using chain_self_loop [of 4121 "hdr heap_cyclic" cs] by simp
qed

lemma heap_cyclic_search: "get_free_block 2 heap_cyclic = None"
proof -
  have "get_free_block_loop 2 4121 heap_cyclic = None"
    by (rule get_free_block_loop_self_loop) (simp_all add: heap_cyclic_def fits_def)
  moreover have "get_free_block 2 heap_cyclic = get_free_block_loop 2 4121 heap_cyclic"
    unfolding get_free_block_def
    by (subst get_free_block_loop.simps) (simp add: heap_cyclic_def)
  ultimately show ?thesis by simp
qed

section \<open>The claims\<close>

text \<open>
  C1. The sum \<^verbatim>\<open>sizeof(struct header_t) + size\<close> in \<^verbatim>\<open>mmalloc\<close> is computed in
  \<^verbatim>\<open>size_t\<close> and is not checked. From program start, after \<^verbatim>\<open>mmalloc(1)\<close> has put the
  break at 4121, a request of \<open>2 ^ 64 - 24\<close> bytes makes the sum 0: \<^verbatim>\<open>sbrk(0)\<close>
  succeeds, so \<^verbatim>\<open>mmalloc\<close> returns 4145 without the break having moved, a region that
  starts 24 bytes above the break. The next request, of one byte, gets its header at the
  same address 4121 and returns the same pointer 4145, while the block of the second call
  was never released. Every store of this run is inside the page from 4096 to 8192.
\<close>

theorem mmalloc_wrapped_request_overlap:
  "\<exists>s1 s2 s3.
     mmalloc 1 (init 4096 8192) = Some (Inr 4120, s1) \<and> brk s1 = 4121 \<and>
     mmalloc 18446744073709551592 s1 = Some (Inr 4145, s2) \<and> brk s2 = 4121 \<and>
     hd_is_free (hdr s2 (4145 - header_size)) = 0 \<and>
     mmalloc 1 s2 = Some (Inr 4145, s3)"
  by (simp add: init_def mmalloc_def get_free_block_def get_free_block_loop.simps sbrk_def
      header_size_def new_block_def ffree_def ffree_loop.simps Let_def fits_def)

text \<open>
  C2. First fit without splitting. For a non-zero size, when the list from \<^verbatim>\<open>head\<close> is
  \<open>pre @ b # post\<close>, no block of \<open>pre\<close> is free and large enough and \<open>b\<close> is,
  \<^verbatim>\<open>mmalloc\<close> returns the address right after the header \<open>b\<close> and changes nothing but
  the free flag of \<open>b\<close>, which it clears: the size of \<open>b\<close> stays, however large.
  In particular, from the state at program start with break \<open>b0\<close> (not null, with room
  for the three blocks below \<open>2 ^ 63\<close>): after allocating A (4 bytes), B (8 bytes) and C
  (1 byte) and releasing A, \<^verbatim>\<open>mmalloc(2)\<close> returns the address of A again.
\<close>

theorem mmalloc_first_fit:
  "(sz \<noteq> 0 \<and> chain (hdr s) (head s) (pre @ b # post) \<and>
    (\<forall>x\<in>set pre. \<not> fits s sz x) \<and> fits s sz b \<longrightarrow>
      mmalloc sz s =
        Some (Inr (b + header_size), s\<lparr>hdr := (hdr s)(b := (hdr s b)\<lparr>hd_is_free := 0\<rparr>)\<rparr>)) \<and>
   (b0 \<noteq> 0 \<and> unat b0 + 85 \<le> unat lim \<and> unat lim < 2 ^ 63 \<longrightarrow>
      (\<exists>s1 s2 s3 s4 s5.
         mmalloc 4 (init b0 lim) = Some (Inr (b0 + 24), s1) \<and>
         mmalloc 8 s1 = Some (Inr (b0 + 52), s2) \<and>
         mmalloc 1 s2 = Some (Inr (b0 + 84), s3) \<and>
         ffree (b0 + 24) s3 = Some s4 \<and>
         mmalloc 2 s4 = Some (Inr (b0 + 24), s5)))"
  using mmalloc_reuse [of sz s pre b post] first_fit_scenario [of b0 lim] by blast

theorem mmalloc_first_fit_witness:
  "mmalloc 2 heap_abc =
     Some (Inr 4120, heap_abc\<lparr>hdr := (hdr heap_abc)(4096 := (hdr heap_abc 4096)\<lparr>hd_is_free := 0\<rparr>)\<rparr>) \<and>
   (\<exists>s1 s2 s3 s4 s5.
      mmalloc 4 (init 4096 8192) = Some (Inr 4120, s1) \<and>
      mmalloc 8 s1 = Some (Inr 4148, s2) \<and>
      mmalloc 1 s2 = Some (Inr 4180, s3) \<and>
      ffree 4120 s3 = Some s4 \<and>
      mmalloc 2 s4 = Some (Inr 4120, s5))"
proof -
  have "chain (hdr heap_abc) (head heap_abc) ([] @ 4096 # [4124, 4156])"
    and "fits heap_abc 2 4096"
    by (simp_all add: heap_abc_def fits_def)
  with mmalloc_first_fit [of 2 heap_abc "[]" 4096 "[4124, 4156]" 4096 8192]
  show ?thesis by (simp add: header_size_def)
qed

text \<open>
  C3. Growth after a wrapped request. From program start, \<^verbatim>\<open>mmalloc(1)\<close> and then
  \<^verbatim>\<open>mmalloc\<close> of \<open>2 ^ 64 - 24\<close> bytes, whose growth request
  \<^verbatim>\<open>sbrk(header_size + size)\<close> is \<^verbatim>\<open>sbrk(0)\<close> and leaves the break at 4121, give the
  list of the headers 4096 and 4121, the second at the break. In the next \<^verbatim>\<open>mmalloc(1)\<close>
  no block is free, \<^verbatim>\<open>sbrk(25)\<close> succeeds and returns 4121, and the header written at
  the returned address is the tail itself: \<^verbatim>\<open>tail->next = header\<close> makes its
  \<^verbatim>\<open>next\<close> point to itself, where the claim has it empty.
\<close>

theorem mmalloc_growth_over_tail:
  "\<exists>s1 s2 s3.
     mmalloc 1 (init 4096 8192) = Some (Inr 4120, s1) \<and>
     header_size + 18446744073709551592 = 0 \<and>
     fst (sbrk (header_size + 18446744073709551592) s1) = 4121 \<and>
     mmalloc 18446744073709551592 s1 = Some (Inr 4145, s2) \<and> brk s2 = brk s1 \<and>
     chain (hdr s2) (head s2) [4096, 4121] \<and> tail s2 = 4121 \<and>
     \<not> fits s2 1 4096 \<and> \<not> fits s2 1 4121 \<and>
     fst (sbrk (header_size + 1) s2) = 4121 \<and>
     mmalloc 1 s2 = Some (Inr (4121 + header_size), s3) \<and>
     hd_next (hdr s3 4121) = 4121"
  by (simp add: init_def mmalloc_def get_free_block_def get_free_block_loop.simps sbrk_def
      header_size_def new_block_def ffree_def ffree_loop.simps Let_def fits_def)

text \<open>
  C4. Release after a wrapped request. From program start, \<^verbatim>\<open>p = mmalloc(1)\<close> and then
  \<^verbatim>\<open>mmalloc\<close> of \<open>2 ^ 64 - 24\<close> bytes give the list of the headers 4096 and 4121 with
  the break at 4121. \<^verbatim>\<open>ffree(p)\<close> finds \<^verbatim>\<open>p + header->size\<close> equal to the break, for
  the header 4096 of \<open>p\<close>, and removes a header from the list: not that header but the tail
  4121. The header of \<open>p\<close> is the list that remains, still not free, and the break is at
  it.
\<close>

theorem ffree_leaves_named_block:
  "\<exists>s1 s2 s3.
     mmalloc 1 (init 4096 8192) = Some (Inr 4120, s1) \<and>
     mmalloc 18446744073709551592 s1 = Some (Inr 4145, s2) \<and>
     chain (hdr s2) (head s2) [4096, 4121] \<and>
     4120 - header_size = 4096 \<and>
     4120 + hd_size (hdr s2 (4120 - header_size)) = fst (sbrk 0 s2) \<and>
     ffree 4120 s2 = Some s3 \<and>
     chain (hdr s3) (head s3) [4120 - header_size] \<and>
     hd_is_free (hdr s3 (4120 - header_size)) = 0 \<and>
     brk s3 = 4120 - header_size"
  by (simp add: init_def mmalloc_def get_free_block_def get_free_block_loop.simps sbrk_def
      header_size_def new_block_def ffree_def ffree_loop.simps Let_def fits_def)




text \<open>
  C6. When \<^verbatim>\<open>rrealloc\<close> has to move the block (the pointer and the size are non-zero and
  the block is smaller than the new size) and its \<^verbatim>\<open>mmalloc\<close> fails, \<^verbatim>\<open>rrealloc\<close>
  returns the null pointer with \<open>OutOfMemory\<close>; the list, every header (so the size and
  the free flag of the old block) and every byte are as before, and the old block is not
  released. The whole state is unchanged unless the break sits at the address \<open>- 1\<close>.
\<close>

theorem rrealloc_alloc_fails:
  assumes "block \<noteq> 0" "sz \<noteq> 0" "hd_size (hdr s (block - header_size)) < sz"
    and "mmalloc sz s = Some (Inl e, s1)"
  shows "rrealloc block sz s = Some (Inl OutOfMemory, s1) \<and> ptr_of (Inl OutOfMemory) = 0 \<and>
         head s1 = head s \<and> tail s1 = tail s \<and> hdr s1 = hdr s \<and> mem s1 = mem s \<and>
         (brk s \<noteq> - 1 \<longrightarrow> s1 = s)"
  using assms mmalloc_Inl [OF assms(4)]
  by (simp add: rrealloc_def Let_def ptr_of_def)

theorem rrealloc_alloc_fails_witness:
  "rrealloc 4120 10 heap_a = Some (Inl OutOfMemory, heap_a)"
proof -
  have m: "mmalloc 10 heap_a = Some (Inl OutOfMemory, heap_a)"
    by (simp add: mmalloc_def get_free_block_def get_free_block_loop.simps heap_a_def sbrk_def
        header_size_def)
  have "hd_size (hdr heap_a (4120 - header_size)) < 10"
    by (simp add: heap_a_def header_size_def)
  from rrealloc_alloc_fails [OF _ _ this m] show ?thesis by simp
qed

text \<open>
  C7. For a non-zero count and element size, \<^verbatim>\<open>ccalloc\<close> fails with \<open>Overflow\<close> exactly
  when the product of the two does not fit into 64 bits; the test of the code, the product
  modulo \<open>2 ^ 64\<close> divided by the count differing from the element size, detects exactly
  that; and on this failure the state is unchanged, so nothing was allocated.
\<close>

theorem ccalloc_overflow:
  assumes "num \<noteq> 0" "nsize \<noteq> 0"
  shows "((nsize \<noteq> (num * nsize) div num) = (2 ^ 64 \<le> unat num * unat nsize)) \<and>
         ((\<exists>s'. ccalloc num nsize s = Some (Inl Overflow, s')) = (2 ^ 64 \<le> unat num * unat nsize)) \<and>
         (2 ^ 64 \<le> unat num * unat nsize \<longrightarrow> ccalloc num nsize s = Some (Inl Overflow, s))"
proof -
  note rt = mul_div_roundtrip [OF assms(1), of nsize]
  have a: "2 ^ 64 \<le> unat num * unat nsize \<Longrightarrow> ccalloc num nsize s = Some (Inl Overflow, s)"
    using assms rt by (simp add: ccalloc_def Let_def)
  have b: "2 ^ 64 \<le> unat num * unat nsize" if "ccalloc num nsize s = Some (Inl Overflow, s')" for s'
  proof (rule ccontr)
    assume "\<not> 2 ^ 64 \<le> unat num * unat nsize"
    with rt have eq: "nsize = (num * nsize) div num" by simp
    with that assms obtain r s1 where m: "mmalloc (num * nsize) s = Some (r, s1)"
      and r: "r = Inl Overflow"
      by (auto simp: ccalloc_def Let_def split: option.splits if_splits)
    from mmalloc_Inl [of "num * nsize" s Overflow s1] m r show False
      by (auto split: if_splits)
  qed
  from a b rt show ?thesis by blast
qed

theorem ccalloc_overflow_witness:
  "ccalloc 4294967296 4294967296 heap_abc = Some (Inl Overflow, heap_abc) \<and>
   (\<nexists>s'. ccalloc 3 5 heap_abc = Some (Inl Overflow, s'))"
  using ccalloc_overflow [of 4294967296 4294967296 heap_abc] ccalloc_overflow [of 3 5 heap_abc]
  by simp

text \<open>
  C8. Requests of size zero fail with \<open>InvalidSize\<close> and change nothing: \<^verbatim>\<open>mmalloc(0)\<close>
  and \<^verbatim>\<open>rrealloc(p, 0)\<close> for any pointer \<open>p\<close> return the null pointer and the state as it
  was (so \<^verbatim>\<open>rrealloc(p, 0)\<close> does not release \<open>p\<close>), and so does \<^verbatim>\<open>ccalloc\<close> when
  the count or the element size is zero.
\<close>

theorem zero_size_requests:
  "mmalloc 0 s = Some (Inl InvalidSize, s) \<and>
   rrealloc block 0 s = Some (Inl InvalidSize, s) \<and>
   (num = 0 \<or> nsize = 0 \<longrightarrow> ccalloc num nsize s = Some (Inl InvalidSize, s)) \<and>
   ptr_of (Inl InvalidSize) = 0"
  by (simp add: mmalloc_def rrealloc_def ccalloc_def ptr_of_def)

theorem zero_size_requests_witness:
  "mmalloc 0 heap_abc = Some (Inl InvalidSize, heap_abc) \<and>
   rrealloc 4148 0 heap_abc = Some (Inl InvalidSize, heap_abc) \<and>
   ccalloc 0 8 heap_abc = Some (Inl InvalidSize, heap_abc) \<and>
   ccalloc 8 0 heap_abc = Some (Inl InvalidSize, heap_abc)"
  using zero_size_requests [of heap_abc 4148 0 8] zero_size_requests [of heap_abc 4148 8 0]
  by simp

text \<open>
  C9. From program start, \<^verbatim>\<open>mmalloc(1)\<close> and then \<^verbatim>\<open>mmalloc\<close> of \<open>2 ^ 64 - 24\<close> bytes
  give the list of the headers 4096 and 4121, which is still a chain, with the tail 4121 at
  the break. The next \<^verbatim>\<open>mmalloc(1)\<close> gets the address of the tail from \<^verbatim>\<open>sbrk\<close>, writes
  its header over it, and \<^verbatim>\<open>tail->next = header\<close> makes the tail its own successor.
  No finite list of nodes leads from \<^verbatim>\<open>head\<close> to the null pointer any more, and the
  search of \<^verbatim>\<open>get_free_block\<close> for two bytes never returns. Every store of this run is
  inside the page from 4096 to 8192.
\<close>

theorem mmalloc_makes_cycle:
  "\<exists>s1 s2 s3.
     mmalloc 1 (init 4096 8192) = Some (Inr 4120, s1) \<and>
     mmalloc 18446744073709551592 s1 = Some (Inr 4145, s2) \<and>
     chain (hdr s2) (head s2) [4096, 4121] \<and> tail s2 = 4121 \<and>
     hd_next (hdr s2 (tail s2)) = 0 \<and>
     mmalloc 1 s2 = Some (Inr 4145, s3) \<and>
     head s3 = 4096 \<and> tail s3 = 4121 \<and> hd_next (hdr s3 (tail s3)) = tail s3 \<and>
     (\<forall>bs. \<not> chain (hdr s3) (head s3) bs) \<and>
     get_free_block 2 s3 = None"
proof -
  from heap_wrapped_reached obtain s1
    where 1: "mmalloc 1 (init 4096 8192) = Some (Inr 4120, s1)"
      and 2: "mmalloc 18446744073709551592 s1 = Some (Inr 4145, heap_wrapped)" by blast
  have w: "chain (hdr heap_wrapped) (head heap_wrapped) [4096, 4121]" "tail heap_wrapped = 4121"
    "hd_next (hdr heap_wrapped (tail heap_wrapped)) = 0"
    by (simp_all add: heap_wrapped_def)
  have c: "head heap_cyclic = 4096" "tail heap_cyclic = 4121"
    "hd_next (hdr heap_cyclic (tail heap_cyclic)) = tail heap_cyclic"
    by (simp_all add: heap_cyclic_def)
  from 1 2 w heap_cyclic_reached c heap_cyclic_no_chain heap_cyclic_search
  show ?thesis by blast
qed

text \<open>
  C10. With one block of one byte allocated, a request of \<open>2 ^ 64 - 24\<close> bytes appends a
  header at the break without moving the break. The test of \<^verbatim>\<open>ffree\<close> then holds for the
  first block, which is not the tail: \<^verbatim>\<open>ffree\<close> of the first block unlinks the tail and
  lowers the break by the size of the first block. The first block stays in the list as a
  live block and as the tail, with the break at its header.
\<close>

theorem ffree_unlinks_other_block:
  "\<exists>s1 s2 s3.
     mmalloc 1 (init 4096 8192) = Some (Inr 4120, s1) \<and>
     mmalloc 18446744073709551592 s1 = Some (Inr 4145, s2) \<and>
     head s2 = 4096 \<and> tail s2 = 4121 \<and> 4120 + hd_size (hdr s2 4096) = brk s2 \<and>
     ffree 4120 s2 = Some s3 \<and>
     head s3 = 4096 \<and> tail s3 = 4096 \<and> hd_is_free (hdr s3 4096) = 0 \<and> brk s3 = 4096 \<and>
     tail s3 + header_size + hd_size (hdr s3 (tail s3)) \<noteq> brk s3"
  by (simp add: init_def mmalloc_def get_free_block_def get_free_block_loop.simps sbrk_def
      header_size_def new_block_def ffree_def ffree_loop.simps Let_def)

end
